theory Spec2Isabelle
  imports Main "HOL-Library.Word" "HOL-Library.Multiset"
begin

chapter \<open>fustgo: embedding of the core components\<close>

text \<open>
  Wall-clock instants (Go's \<open>time.Time\<close>) are integers; every \<open>time.Now()\<close> of the
  source is an explicit argument of the operation that reads the clock.
\<close>

type_synonym time = int

section \<open>Data types (pkg/types/data.go)\<close>

text \<open>
  An \<open>interface{}\<close> value, as the plugins and the tests put them in a record, in a column's
  default and in a checkpoint's position: nil, a boolean, an integer or a string. Nothing
  embedded here looks inside one. A \<open>map[string]string\<close> is a partial function. A field name
  that several structs share (\<open>Metadata\<close>, \<open>Schema\<close>, \<open>DataType\<close>, \<open>Checkpoint\<close>) carries the
  name of its struct in all but one of them.
\<close>

datatype any_value = AnyNil | AnyBool bool | AnyInt int | AnyString string

datatype DataType =
    DataTypeUnknown
  | DataTypeString
  | DataTypeInt
  | DataTypeBigInt
  | DataTypeFloat
  | DataTypeDouble
  | DataTypeBool
  | DataTypeDate
  | DataTypeTimestamp
  | DataTypeBytes
  | DataTypeJSON

record Column =
  Name :: string
  ColumnDataType :: DataType
  Nullable :: bool
  DefaultValue :: any_value

record Schema =
  Columns :: "Column list"
  PrimaryKeys :: "string list"

record Record =
  Values :: "any_value list"
  RecordMetadata :: "string \<rightharpoonup> string"

record Checkpoint =
  Position :: any_value
  Timestamp :: time
  Metadata :: "string \<rightharpoonup> string"

text \<open>
  A \<open>*Checkpoint\<close> is an address in a store of checkpoint objects; an address with no object
  is the nil pointer. The \<open>Checkpoint\<close> field of a batch is such a pointer, or absent.
\<close>

type_synonym addr = nat

record DataBatch =
  BatchSchema :: Schema
  Records :: "Record list"
  BatchMetadata :: "string \<rightharpoonup> string"
  BatchCheckpoint :: "addr option"

definition Size :: "DataBatch \<Rightarrow> nat" where
  "Size db = length (Records db)"

definition IsEmpty :: "DataBatch \<Rightarrow> bool" where
  "IsEmpty db = (length (Records db) = 0)"

section \<open>Task queue (internal/queue/memory.go)\<close>

datatype queue_error =
    QueueClosed
  | QueueFull int
  | ContextCancelled
  | QueueEmpty
  | TaskNotFound string

text \<open>
  \<open>Task\<close>: the opaque \<open>Data interface{}\<close> payload is a string here. \<open>Priority\<close> is only ever
  compared, never computed with, so Go's \<open>int\<close> is an unbounded integer.
\<close>

record Task =
  ID :: string
  TaskJobID :: string
  Priority :: int
  TaskCreatedAt :: time
  Data :: string
  Retries :: int
  MaxRetries :: int

text \<open>
  \<open>MemoryQueue\<close>: the \<open>container/list\<close> of task pointers is a list, front first. The mutex and
  the condition variable have no state of their own in a sequential reading; the statistics
  counters are \<open>int64\<close>.
\<close>

record MemoryQueue =
  tasks :: "Task list"
  maxSize :: int
  closed :: bool
  enqueued :: "64 word"
  dequeued :: "64 word"
  failed :: "64 word"

definition NewMemoryQueue :: "int \<Rightarrow> MemoryQueue" where
  "NewMemoryQueue max_size =
     \<lparr>tasks = [], maxSize = max_size, closed = False, enqueued = 0, dequeued = 0, failed = 0\<rparr>"

text \<open>
  The insertion loop of \<open>Enqueue\<close>: walk from the front, insert before the first element of
  strictly lower priority, push to the back when there is none.
\<close>

fun insertByPriority :: "Task \<Rightarrow> Task list \<Rightarrow> Task list" where
  "insertByPriority task [] = [task]"
| "insertByPriority task (t # ts) =
     (if Priority task > Priority t then task # t # ts else t # insertByPriority task ts)"

definition Enqueue :: "MemoryQueue \<Rightarrow> Task \<Rightarrow> queue_error + MemoryQueue" where
  "Enqueue q task =
     (if closed q then Inl QueueClosed
      else if int (length (tasks q)) \<ge> maxSize q then Inl (QueueFull (maxSize q))
      else Inr (q\<lparr>tasks := insertByPriority task (tasks q), enqueued := enqueued q + 1\<rparr>))"

text \<open>
  One pass of the \<open>Dequeue\<close> loop, with the state of the caller's context as an argument.
  \<open>None\<close> is the pass that reaches \<open>notEmpty.Wait()\<close>: the call has not returned.
\<close>

definition Dequeue :: "bool \<Rightarrow> MemoryQueue \<Rightarrow> (queue_error + Task) option \<times> MemoryQueue" where
  "Dequeue ctx_done q =
     (if ctx_done then (Some (Inl ContextCancelled), q)
      else if closed q then (Some (Inl QueueClosed), q)
      else (case tasks q of
              t # rest \<Rightarrow> (Some (Inr t), q\<lparr>tasks := rest, dequeued := dequeued q + 1\<rparr>)
            | [] \<Rightarrow> (None, q)))"

definition byPriorityDesc :: "Task list \<Rightarrow> bool" where
  "byPriorityDesc xs = sorted_wrt (\<lambda>a b. Priority a \<ge> Priority b) xs"

definition mkTask :: "string \<Rightarrow> int \<Rightarrow> Task" where
  "mkTask name p =
     \<lparr>ID = name, TaskJobID = ''job'', Priority = p, TaskCreatedAt = 0, Data = [],
      Retries = 0, MaxRetries = 3\<rparr>"

text \<open>
  A sequential history of the queue: each operation is one critical section of \<open>Enqueue\<close> or
  one pass of \<open>Dequeue\<close> under a live context. The run records, beside the queue, the tasks
  accepted by \<open>Enqueue\<close> and the tasks returned by \<open>Dequeue\<close>, each in the order it happened.
\<close>
datatype queue_op = Enq Task | Deq

type_synonym queue_run = "MemoryQueue \<times> Task list \<times> Task list"

fun queue_step :: "queue_run \<Rightarrow> queue_op \<Rightarrow> queue_run" where
  "queue_step (q, acc, del) (Enq t) =
     (case Enqueue q t of Inl e \<Rightarrow> (q, acc, del) | Inr q' \<Rightarrow> (q', acc @ [t], del))"
| "queue_step (q, acc, del) Deq =
     (case Dequeue False q of
        (Some (Inr t), q') \<Rightarrow> (q', acc, del @ [t])
      | (_, q') \<Rightarrow> (q', acc, del))"

definition queue_run :: "MemoryQueue \<Rightarrow> queue_op list \<Rightarrow> queue_run" where
  "queue_run q ops = foldl queue_step (q, [], []) ops"

definition precedes :: "'a \<Rightarrow> 'a \<Rightarrow> 'a list \<Rightarrow> bool" where
  "precedes x y xs = (x \<in> set (takeWhile (\<lambda>z. z \<noteq> y) xs))"

abbreviation prio_key :: "Task \<Rightarrow> int" where
  "prio_key \<equiv> (\<lambda>t. - Priority t)"

definition queue_inv :: "queue_run \<Rightarrow> bool" where
  "queue_inv s = (case s of (q, acc, del) \<Rightarrow>
     \<not> closed q \<and> set del \<subseteq> set acc \<and>
     tasks q = sort_key prio_key (filter (\<lambda>t. t \<notin> set del) acc) \<and>
     (\<forall>t t'. precedes t t' acc \<and> Priority t' \<le> Priority t \<and> t' \<in> set del \<longrightarrow> precedes t t' del))"

section \<open>Job model (internal/models) and metadata store (internal/database)\<close>

type_synonym JobStatus = string

definition JobStatusDraft :: JobStatus where "JobStatusDraft = ''draft''"
definition JobStatusReady :: JobStatus where "JobStatusReady = ''ready''"
definition JobStatusRunning :: JobStatus where "JobStatusRunning = ''running''"
definition JobStatusPaused :: JobStatus where "JobStatusPaused = ''paused''"
definition JobStatusCompleted :: JobStatus where "JobStatusCompleted = ''completed''"
definition JobStatusFailed :: JobStatus where "JobStatusFailed = ''failed''"

text \<open>A parsed YAML document, as far as the manager looks into it: the keys of the top-level mapping.\<close>

datatype yaml = YNull | YScalar string | YSeq "yaml list" | YMap "(string \<times> yaml) list"

type_synonym yaml_parser = "string \<Rightarrow> (string \<times> yaml) list option"

record Job =
  JobID :: string
  JobName :: string
  JobType :: string
  Description :: string
  ConfigYAML :: string
  FlowDiagram :: string
  SchedulingConfig :: string
  Status :: JobStatus
  CreatedBy :: string
  CreatedAt :: time
  UpdatedAt :: time
  Enabled :: bool
  JobPriority :: int
  RetryPolicy :: string
  Config :: "(string \<times> yaml) list"

datatype store_error = RowNotFound string | DBFault

text \<open>
  The SQLite store's job table: the rows in insertion order, \<open>job_id\<close> the primary key. A row
  holds the persisted columns, so the parsed \<open>Config\<close> (tagged \<open>db:"-"\<close>) is empty in it.
  Whether the database answers a read or a write at all is an input of each call
  (\<open>read_ok\<close>, \<open>write_ok\<close>).
\<close>

type_synonym JobTable = "Job list"

definition job_row :: "Job \<Rightarrow> Job" where
  "job_row job = job\<lparr>Config := []\<rparr>"

definition lookup_job :: "JobTable \<Rightarrow> string \<Rightarrow> Job option" where
  "lookup_job rows jobID = find (\<lambda>r. JobID r = jobID) rows"

definition store_SaveJob :: "bool \<Rightarrow> JobTable \<Rightarrow> Job \<Rightarrow> store_error + JobTable" where
  "store_SaveJob write_ok rows job =
     (if \<not> write_ok then Inl DBFault
      else case lookup_job rows (JobID job) of
             Some _ \<Rightarrow> Inl DBFault
           | None \<Rightarrow> Inr (rows @ [job_row job]))"

definition store_GetJob :: "bool \<Rightarrow> JobTable \<Rightarrow> string \<Rightarrow> store_error + Job" where
  "store_GetJob read_ok rows jobID =
     (if \<not> read_ok then Inl DBFault
      else case lookup_job rows jobID of
             None \<Rightarrow> Inl (RowNotFound jobID)
           | Some row \<Rightarrow> Inr row)"

definition updated_row :: "time \<Rightarrow> Job \<Rightarrow> Job \<Rightarrow> Job" where
  "updated_row db_now job old =
     (job_row job)\<lparr>CreatedBy := CreatedBy old, CreatedAt := CreatedAt old, UpdatedAt := db_now\<rparr>"

definition store_UpdateJob :: "bool \<Rightarrow> time \<Rightarrow> JobTable \<Rightarrow> Job \<Rightarrow> store_error + JobTable" where
  "store_UpdateJob write_ok db_now rows job =
     (if \<not> write_ok then Inl DBFault
      else Inr (map (\<lambda>old. if JobID old = JobID job then updated_row db_now job old else old) rows))"

definition store_DeleteJob :: "bool \<Rightarrow> JobTable \<Rightarrow> string \<Rightarrow> store_error + JobTable" where
  "store_DeleteJob write_ok rows jobID =
     (if \<not> write_ok then Inl DBFault else Inr (filter (\<lambda>r. JobID r \<noteq> jobID) rows))"

section \<open>Job manager (internal/jobmanager)\<close>

datatype config_error =
    JobNameRequired
  | ConfigurationRequired
  | InvalidYAML
  | MissingInputSection
  | MissingOutputSection

datatype jm_error =
    JobNotFound store_error
  | InvalidJobConfiguration config_error
  | FailedToSaveJob store_error
  | FailedToUpdateJob store_error
  | FailedToUpdateJobStatus store_error
  | FailedToDeleteJob store_error
  | CannotDeleteRunningJob
  | CannotStartFromStatus JobStatus
  | CannotStopInStatus JobStatus
  | JobAlreadyRunning
  | NoValidTransitionsFrom JobStatus
  | InvalidStateTransition JobStatus JobStatus

text \<open>
  \<open>JobInstance\<close>: \<open>Ctx\<close> and \<open>Cancel\<close> are set and cleared together, so one flag says whether
  the instance holds a cancellation scope.
\<close>

record JobInstance =
  InstJob :: Job
  InstStatus :: JobStatus
  InstUpdatedAt :: time
  InstCtx :: bool

record Manager =
  store :: JobTable
  jobs :: "string \<rightharpoonup> JobInstance"
  running :: "string set"

definition NewManager :: "JobTable \<Rightarrow> Manager" where
  "NewManager st = \<lparr>store = st, jobs = Map.empty, running = {}\<rparr>"

text \<open>What a call reads from its surroundings: the two clocks, a fresh uuid, the database's mood.\<close>

record call_env =
  now :: time
  db_now :: time
  new_uuid :: string
  read_ok :: bool
  write_ok :: bool

definition validTransitions :: "(JobStatus \<times> JobStatus list) list" where
  "validTransitions =
     [(JobStatusDraft, [JobStatusReady]),
      (JobStatusReady, [JobStatusRunning, JobStatusDraft]),
      (JobStatusRunning, [JobStatusPaused, JobStatusCompleted, JobStatusFailed]),
      (JobStatusPaused, [JobStatusRunning, JobStatusCompleted]),
      (JobStatusCompleted, [JobStatusReady]),
      (JobStatusFailed, [JobStatusReady])]"

definition validateStateTransition :: "JobStatus \<Rightarrow> JobStatus \<Rightarrow> jm_error option" where
  "validateStateTransition from to =
     (case map_of validTransitions from of
        None \<Rightarrow> Some (NoValidTransitionsFrom from)
      | Some allowed \<Rightarrow>
          if to \<in> set allowed then None else Some (InvalidStateTransition from to))"

text \<open>
  \<open>validateJobConfig\<close> stores the parsed mapping in the job before it looks for the sections,
  so the job comes back changed even when validation fails. \<open>yaml.Unmarshal\<close> is the
  parameter \<open>parse\<close>.
\<close>

definition validateJobConfig :: "yaml_parser \<Rightarrow> Job \<Rightarrow> config_error option \<times> Job" where
  "validateJobConfig parse job =
     (if JobName job = [] then (Some JobNameRequired, job)
      else if ConfigYAML job = [] then (Some ConfigurationRequired, job)
      else case parse (ConfigYAML job) of
             None \<Rightarrow> (Some InvalidYAML, job)
           | Some config \<Rightarrow>
               (let job' = job\<lparr>Config := config\<rparr> in
                if map_of config ''input'' = None then (Some MissingInputSection, job')
                else if map_of config ''output'' = None then (Some MissingOutputSection, job')
                else (None, job')))"

definition CreateJob ::
  "yaml_parser \<Rightarrow> call_env \<Rightarrow> Manager \<Rightarrow> Job \<Rightarrow> (jm_error + unit) \<times> Job \<times> Manager" where
  "CreateJob parse env m job =
     (let job1 = (if JobID job = [] then job\<lparr>JobID := new_uuid env\<rparr> else job);
          job2 = (if Status job1 = [] then job1\<lparr>Status := JobStatusDraft\<rparr> else job1);
          job3 = job2\<lparr>CreatedAt := now env, UpdatedAt := now env\<rparr>
      in case validateJobConfig parse job3 of
           (Some e, job4) \<Rightarrow> (Inl (InvalidJobConfiguration e), job4, m)
         | (None, job4) \<Rightarrow>
             (case store_SaveJob (write_ok env) (store m) job4 of
                Inl e \<Rightarrow> (Inl (FailedToSaveJob e), job4, m)
              | Inr st \<Rightarrow>
                  (Inr (), job4,
                   m\<lparr>store := st,
                     jobs := (jobs m)(JobID job4 \<mapsto>
                       \<lparr>InstJob = job4, InstStatus = Status job4, InstUpdatedAt = now env,
                        InstCtx = False\<rparr>)\<rparr>)))"

definition GetJob :: "call_env \<Rightarrow> Manager \<Rightarrow> string \<Rightarrow> (jm_error + Job) \<times> Manager" where
  "GetJob env m jobID =
     (case jobs m jobID of
        Some inst \<Rightarrow> (Inr (InstJob inst), m)
      | None \<Rightarrow>
          (case store_GetJob (read_ok env) (store m) jobID of
             Inl e \<Rightarrow> (Inl (JobNotFound e), m)
           | Inr job \<Rightarrow>
               (Inr job,
                m\<lparr>jobs := (jobs m)(jobID \<mapsto>
                  \<lparr>InstJob = job, InstStatus = Status job, InstUpdatedAt = UpdatedAt job,
                   InstCtx = False\<rparr>)\<rparr>)))"

definition cache_refresh :: "Job \<Rightarrow> JobInstance \<Rightarrow> JobInstance" where
  "cache_refresh job inst =
     inst\<lparr>InstJob := job, InstStatus := Status job, InstUpdatedAt := UpdatedAt job\<rparr>"

definition UpdateJob ::
  "yaml_parser \<Rightarrow> call_env \<Rightarrow> Manager \<Rightarrow> Job \<Rightarrow> (jm_error + unit) \<times> Job \<times> Manager" where
  "UpdateJob parse env m job =
     (case store_GetJob (read_ok env) (store m) (JobID job) of
        Inl e \<Rightarrow> (Inl (JobNotFound e), job, m)
      | Inr existing \<Rightarrow>
          (case (if Status job \<noteq> Status existing
                 then validateStateTransition (Status existing) (Status job) else None) of
             Some e \<Rightarrow> (Inl e, job, m)
           | None \<Rightarrow>
               (let job1 = job\<lparr>UpdatedAt := now env\<rparr>;
                    v = (if ConfigYAML job1 \<noteq> ConfigYAML existing
                         then validateJobConfig parse job1 else (None, job1))
                in case v of
                     (Some e, job2) \<Rightarrow> (Inl (InvalidJobConfiguration e), job2, m)
                   | (None, job2) \<Rightarrow>
                       (case store_UpdateJob (write_ok env) (db_now env) (store m) job2 of
                          Inl e \<Rightarrow> (Inl (FailedToUpdateJob e), job2, m)
                        | Inr st \<Rightarrow>
                            (Inr (), job2,
                             m\<lparr>store := st,
                               jobs := (case jobs m (JobID job2) of
                                          Some inst \<Rightarrow>
                                            (jobs m)(JobID job2 \<mapsto> cache_refresh job2 inst)
                                        | None \<Rightarrow> jobs m)\<rparr>)))))"

definition DeleteJob :: "call_env \<Rightarrow> Manager \<Rightarrow> string \<Rightarrow> (jm_error + unit) \<times> Manager" where
  "DeleteJob env m jobID =
     (case store_GetJob (read_ok env) (store m) jobID of
        Inl e \<Rightarrow> (Inl (JobNotFound e), m)
      | Inr job \<Rightarrow>
          if Status job = JobStatusRunning then (Inl CannotDeleteRunningJob, m)
          else (case store_DeleteJob (write_ok env) (store m) jobID of
                  Inl e \<Rightarrow> (Inl (FailedToDeleteJob e), m)
                | Inr st \<Rightarrow> (Inr (), m\<lparr>store := st, jobs := (jobs m)(jobID := None)\<rparr>)))"

definition StartJob :: "call_env \<Rightarrow> Manager \<Rightarrow> string \<Rightarrow> (jm_error + unit) \<times> Manager" where
  "StartJob env m jobID =
     (case store_GetJob (read_ok env) (store m) jobID of
        Inl e \<Rightarrow> (Inl (JobNotFound e), m)
      | Inr job \<Rightarrow>
          if Status job = JobStatusRunning then (Inl (CannotStartFromStatus (Status job)), m)
          else (case validateStateTransition (Status job) JobStatusRunning of
                  Some e \<Rightarrow> (Inl e, m)
                | None \<Rightarrow>
                    if jobID \<in> running m then (Inl JobAlreadyRunning, m)
                    else
                      (let job1 = job\<lparr>Status := JobStatusRunning, UpdatedAt := now env\<rparr>
                       in case store_UpdateJob (write_ok env) (db_now env) (store m) job1 of
                            Inl e \<Rightarrow> (Inl (FailedToUpdateJobStatus e), m)
                          | Inr st \<Rightarrow>
                              (Inr (),
                               m\<lparr>store := st,
                                 running := insert jobID (running m),
                                 jobs := (jobs m)(jobID \<mapsto>
                                   (case jobs m jobID of
                                      Some inst \<Rightarrow> (cache_refresh job1 inst)\<lparr>InstCtx := True\<rparr>
                                    | None \<Rightarrow>
                                        \<lparr>InstJob = job1, InstStatus = Status job1,
                                         InstUpdatedAt = UpdatedAt job1, InstCtx = True\<rparr>))\<rparr>))))"

definition StopJob :: "call_env \<Rightarrow> Manager \<Rightarrow> string \<Rightarrow> (jm_error + unit) \<times> Manager" where
  "StopJob env m jobID =
     (case store_GetJob (read_ok env) (store m) jobID of
        Inl e \<Rightarrow> (Inl (JobNotFound e), m)
      | Inr job \<Rightarrow>
          if Status job \<noteq> JobStatusRunning \<and> Status job \<noteq> JobStatusPaused
          then (Inl (CannotStopInStatus (Status job)), m)
          else
            (let m1 = m\<lparr>running := running m - {jobID}\<rparr>;
                 job1 = job\<lparr>Status := JobStatusCompleted, UpdatedAt := now env\<rparr>
             in case store_UpdateJob (write_ok env) (db_now env) (store m1) job1 of
                  Inl e \<Rightarrow> (Inl (FailedToUpdateJobStatus e), m1)
                | Inr st \<Rightarrow>
                    (Inr (),
                     m1\<lparr>store := st,
                        jobs := (case jobs m1 jobID of
                                   Some inst \<Rightarrow>
                                     (jobs m1)(jobID \<mapsto> (cache_refresh job1 inst)\<lparr>InstCtx := False\<rparr>)
                                 | None \<Rightarrow> jobs m1)\<rparr>)))"

definition PauseJob :: "call_env \<Rightarrow> Manager \<Rightarrow> string \<Rightarrow> (jm_error + unit) \<times> Manager" where
  "PauseJob env m jobID =
     (case store_GetJob (read_ok env) (store m) jobID of
        Inl e \<Rightarrow> (Inl (JobNotFound e), m)
      | Inr job \<Rightarrow>
          (case validateStateTransition (Status job) JobStatusPaused of
             Some e \<Rightarrow> (Inl e, m)
           | None \<Rightarrow>
               (let job1 = job\<lparr>Status := JobStatusPaused, UpdatedAt := now env\<rparr>
                in case store_UpdateJob (write_ok env) (db_now env) (store m) job1 of
                     Inl e \<Rightarrow> (Inl (FailedToUpdateJobStatus e), m)
                   | Inr st \<Rightarrow>
                       (Inr (),
                        m\<lparr>store := st,
                          jobs := (case jobs m jobID of
                                     Some inst \<Rightarrow> (jobs m)(jobID \<mapsto> cache_refresh job1 inst)
                                   | None \<Rightarrow> jobs m)\<rparr>))))"

definition ResumeJob :: "call_env \<Rightarrow> Manager \<Rightarrow> string \<Rightarrow> (jm_error + unit) \<times> Manager" where
  "ResumeJob env m jobID =
     (case store_GetJob (read_ok env) (store m) jobID of
        Inl e \<Rightarrow> (Inl (JobNotFound e), m)
      | Inr job \<Rightarrow>
          (case validateStateTransition (Status job) JobStatusRunning of
             Some e \<Rightarrow> (Inl e, m)
           | None \<Rightarrow>
               (let job1 = job\<lparr>Status := JobStatusRunning, UpdatedAt := now env\<rparr>
                in case store_UpdateJob (write_ok env) (db_now env) (store m) job1 of
                     Inl e \<Rightarrow> (Inl (FailedToUpdateJobStatus e), m)
                   | Inr st \<Rightarrow>
                       (Inr (),
                        m\<lparr>store := st,
                          jobs := (case jobs m jobID of
                                     Some inst \<Rightarrow> (jobs m)(jobID \<mapsto> cache_refresh job1 inst)
                                   | None \<Rightarrow> jobs m)\<rparr>))))"

text \<open>A history of calls on one manager, each with what it read from its surroundings.\<close>

datatype jm_call =
    CallCreate Job
  | CallGet string
  | CallUpdate Job
  | CallDelete string
  | CallStart string
  | CallStop string
  | CallPause string
  | CallResume string

fun jm_apply :: "yaml_parser \<Rightarrow> call_env \<Rightarrow> Manager \<Rightarrow> jm_call \<Rightarrow> (jm_error + unit) \<times> Manager" where
  "jm_apply parse env m (CallCreate job) =
     (case CreateJob parse env m job of (r, _, m') \<Rightarrow> (r, m'))"
| "jm_apply parse env m (CallGet jobID) =
     (case GetJob env m jobID of (r, m') \<Rightarrow> (map_sum id (\<lambda>_. ()) r, m'))"
| "jm_apply parse env m (CallUpdate job) =
     (case UpdateJob parse env m job of (r, _, m') \<Rightarrow> (r, m'))"
| "jm_apply parse env m (CallDelete jobID) = DeleteJob env m jobID"
| "jm_apply parse env m (CallStart jobID) = StartJob env m jobID"
| "jm_apply parse env m (CallStop jobID) = StopJob env m jobID"
| "jm_apply parse env m (CallPause jobID) = PauseJob env m jobID"
| "jm_apply parse env m (CallResume jobID) = ResumeJob env m jobID"

type_synonym jm_event = "Manager \<times> call_env \<times> jm_call \<times> (jm_error + unit) \<times> Manager"

fun jm_run :: "yaml_parser \<Rightarrow> Manager \<Rightarrow> (call_env \<times> jm_call) list \<Rightarrow> jm_event list" where
  "jm_run parse m [] = []"
| "jm_run parse m ((env, c) # cs) =
     (case jm_apply parse env m c of
        (r, m') \<Rightarrow> (m, env, c, r, m') # jm_run parse m' cs)"

text \<open>The table of the specification, and what it is compared with.\<close>

definition allowed_transitions :: "(JobStatus \<times> JobStatus) set" where
  "allowed_transitions =
     {(JobStatusDraft, JobStatusReady),
      (JobStatusReady, JobStatusRunning), (JobStatusReady, JobStatusDraft),
      (JobStatusRunning, JobStatusPaused), (JobStatusRunning, JobStatusCompleted),
      (JobStatusRunning, JobStatusFailed),
      (JobStatusPaused, JobStatusRunning), (JobStatusPaused, JobStatusCompleted),
      (JobStatusCompleted, JobStatusReady),
      (JobStatusFailed, JobStatusReady)}"

definition status_changes :: "Manager \<Rightarrow> Manager \<Rightarrow> (JobStatus \<times> JobStatus) set" where
  "status_changes m m' =
     {(from, to). \<exists>j r r'. lookup_job (store m) j = Some r \<and> lookup_job (store m') j = Some r' \<and>
        from = Status r \<and> to = Status r' \<and> from \<noteq> to}"

fun requested_transition :: "Manager \<Rightarrow> jm_call \<Rightarrow> (JobStatus \<times> JobStatus) option" where
  "requested_transition m (CallUpdate job) =
     (case lookup_job (store m) (JobID job) of
        None \<Rightarrow> None
      | Some r \<Rightarrow> if Status job \<noteq> Status r then Some (Status r, Status job) else None)"
| "requested_transition m (CallStart jobID) =
     map_option (\<lambda>r. (Status r, JobStatusRunning)) (lookup_job (store m) jobID)"
| "requested_transition m (CallStop jobID) =
     map_option (\<lambda>r. (Status r, JobStatusCompleted)) (lookup_job (store m) jobID)"
| "requested_transition m (CallPause jobID) =
     map_option (\<lambda>r. (Status r, JobStatusPaused)) (lookup_job (store m) jobID)"
| "requested_transition m (CallResume jobID) =
     map_option (\<lambda>r. (Status r, JobStatusRunning)) (lookup_job (store m) jobID)"
| "requested_transition m _ = None"

text \<open>A small concrete history, for evaluation.\<close>

definition demo_parse :: yaml_parser where
  "demo_parse text =
     (if text = ''input: {type: csv}; output: {type: csv}''
      then Some [(''input'', YMap [(''type'', YScalar ''csv'')]),
                 (''output'', YMap [(''type'', YScalar ''csv'')])]
      else if text = ''input: {type: csv}''
      then Some [(''input'', YMap [(''type'', YScalar ''csv'')])]
      else None)"

definition demo_job :: Job where
  "demo_job =
     \<lparr>JobID = ''j1'', JobName = ''sync'', JobType = ''etl'', Description = [],
      ConfigYAML = ''input: {type: csv}; output: {type: csv}'', FlowDiagram = [],
      SchedulingConfig = [], Status = [], CreatedBy = [], CreatedAt = 0, UpdatedAt = 0,
      Enabled = True, JobPriority = 1, RetryPolicy = [], Config = []\<rparr>"

definition demo_env :: call_env where
  "demo_env = \<lparr>now = 100, db_now = 101, new_uuid = ''u1'', read_ok = True, write_ok = True\<rparr>"

definition demo_calls :: "(call_env \<times> jm_call) list" where
  "demo_calls =
     [(demo_env, CallCreate demo_job),
      (demo_env, CallStart ''j1''),
      (demo_env, CallUpdate (demo_job\<lparr>Status := JobStatusReady\<rparr>)),
      (demo_env, CallStart ''j1'')]"

section \<open>Worker pool (internal/worker/pool.go)\<close>

type_synonym WorkerStatus = string

definition WorkerStatusOnline :: WorkerStatus where "WorkerStatusOnline = ''online''"
definition WorkerStatusOffline :: WorkerStatus where "WorkerStatusOffline = ''offline''"
definition WorkerStatusBusy :: WorkerStatus where "WorkerStatusBusy = ''busy''"

record Worker =
  WorkerID :: string
  Hostname :: string
  IPAddress :: string
  Port :: int
  WStatus :: WorkerStatus
  CPUCores :: int
  MemoryMB :: int
  LastHeartbeat :: time
  RegisteredAt :: time

text \<open>The SQLite store's worker table, \<open>worker_id\<close> the primary key.\<close>

type_synonym WorkerTable = "Worker list"

definition lookup_worker :: "WorkerTable \<Rightarrow> string \<Rightarrow> Worker option" where
  "lookup_worker rows workerID = find (\<lambda>w. WorkerID w = workerID) rows"

definition store_GetWorker :: "bool \<Rightarrow> WorkerTable \<Rightarrow> string \<Rightarrow> store_error + Worker" where
  "store_GetWorker rd_ok rows workerID =
     (if \<not> rd_ok then Inl DBFault
      else case lookup_worker rows workerID of
             None \<Rightarrow> Inl (RowNotFound workerID)
           | Some row \<Rightarrow> Inr row)"

definition store_UpdateWorkerHeartbeat ::
  "bool \<Rightarrow> time \<Rightarrow> WorkerTable \<Rightarrow> string \<Rightarrow> store_error + WorkerTable" where
  "store_UpdateWorkerHeartbeat wr_ok db_time rows workerID =
     (if \<not> wr_ok then Inl DBFault
      else Inr (map (\<lambda>w. if WorkerID w = workerID
                          then w\<lparr>LastHeartbeat := db_time, WStatus := WorkerStatusOnline\<rparr>
                          else w) rows))"

datatype pool_error =
    WorkerNotFound string
  | FailedToUpdateHeartbeat store_error

text \<open>
  \<open>Pool\<close>: the cache maps a worker id to the pool's own worker object; the rows of the store are
  separate copies.
\<close>

record Pool =
  pool_store :: WorkerTable
  workers :: "string \<rightharpoonup> Worker"
  heartbeatInterval :: int
  heartbeatTimeout :: int
  pool_running :: bool

definition UpdateHeartbeat :: "call_env \<Rightarrow> Pool \<Rightarrow> string \<Rightarrow> (pool_error + unit) \<times> Pool" where
  "UpdateHeartbeat env p workerID =
     (case (case workers p workerID of
              Some worker \<Rightarrow> Inr (worker, p)
            | None \<Rightarrow>
                (case store_GetWorker (read_ok env) (pool_store p) workerID of
                   Inl e \<Rightarrow> Inl (WorkerNotFound workerID)
                 | Inr dbWorker \<Rightarrow>
                     Inr (dbWorker, p\<lparr>workers := (workers p)(workerID \<mapsto> dbWorker)\<rparr>))) of
        Inl e \<Rightarrow> (Inl e, p)
      | Inr (worker, p1) \<Rightarrow>
          (let p2 = p1\<lparr>workers := (workers p1)(workerID \<mapsto> worker\<lparr>LastHeartbeat := now env\<rparr>)\<rparr>
           in case store_UpdateWorkerHeartbeat (write_ok env) (db_now env) (pool_store p2) workerID of
                Inl e \<Rightarrow> (Inl (FailedToUpdateHeartbeat e), p2)
              | Inr st \<Rightarrow> (Inr (), p2\<lparr>pool_store := st\<rparr>)))"

text \<open>
  \<open>checkWorkerHealth\<close>, the body of one monitor tick, at the instant \<open>tick\<close>: the loop over the
  cache treats each worker on its own.
\<close>

definition checkWorker :: "time \<Rightarrow> int \<Rightarrow> Worker \<Rightarrow> Worker" where
  "checkWorker tick timeout worker =
     (if tick - LastHeartbeat worker > timeout
      then (if WStatus worker \<noteq> WorkerStatusOffline
            then worker\<lparr>WStatus := WorkerStatusOffline\<rparr> else worker)
      else if WStatus worker = WorkerStatusOffline
           then worker\<lparr>WStatus := WorkerStatusOnline\<rparr>
      else worker)"

definition checkWorkerHealth :: "time \<Rightarrow> Pool \<Rightarrow> Pool" where
  "checkWorkerHealth tick p =
     p\<lparr>workers := (\<lambda>workerID. map_option (checkWorker tick (heartbeatTimeout p)) (workers p workerID))\<rparr>"

definition demo_worker :: Worker where
  "demo_worker =
     \<lparr>WorkerID = ''w1'', Hostname = ''host'', IPAddress = ''10.0.0.1'', Port = 8080,
      WStatus = WorkerStatusOffline, CPUCores = 4, MemoryMB = 512, LastHeartbeat = 10,
      RegisteredAt = 1\<rparr>"

definition demo_pool :: Pool where
  "demo_pool =
     \<lparr>pool_store = [demo_worker], workers = [''w1'' \<mapsto> demo_worker],
      heartbeatInterval = 30, heartbeatTimeout = 90, pool_running = True\<rparr>"

section \<open>Checkpoint manager (internal/checkpoint)\<close>

text \<open>
  The manager keeps pointers to checkpoint objects, and the caller keeps its own pointer to
  the object it passed, so the objects live in a store from addresses to values.
\<close>

type_synonym cp_heap = "addr \<rightharpoonup> Checkpoint"

datatype checkpoint_error =
    NilCheckpoint
  | FailedToSaveCheckpoint
  | FailedToDeleteCheckpoint
  | FailedToClearCheckpoints

text \<open>
  \<open>files\<close> is the file storage: what was written for a job id and a stage, as of the write.
  Whether a write succeeds is an input of the call.
\<close>

record CheckpointManager =
  cp_jobID :: string
  checkpoints :: "string \<rightharpoonup> addr"
  files :: "string \<times> string \<rightharpoonup> Checkpoint"
  enabled :: bool

definition SaveCheckpoint ::
  "time \<Rightarrow> bool \<Rightarrow> cp_heap \<times> CheckpointManager \<Rightarrow> string \<Rightarrow> addr
     \<Rightarrow> (checkpoint_error + unit) \<times> cp_heap \<times> CheckpointManager" where
  "SaveCheckpoint t storage_ok hm stage checkpoint =
     (case hm of (h, m) \<Rightarrow>
        if \<not> enabled m then (Inr (), h, m)
        else case h checkpoint of
               None \<Rightarrow> (Inl NilCheckpoint, h, m)
             | Some c \<Rightarrow>
                 (let c' = c\<lparr>Timestamp := t\<rparr>;
                      h' = h(checkpoint \<mapsto> c');
                      m' = m\<lparr>checkpoints := (checkpoints m)(stage \<mapsto> checkpoint)\<rparr>
                  in if \<not> storage_ok then (Inl FailedToSaveCheckpoint, h', m')
                     else (Inr (), h', m'\<lparr>files := (files m')((cp_jobID m', stage) \<mapsto> c')\<rparr>)))"

definition LoadCheckpoint :: "CheckpointManager \<Rightarrow> string \<Rightarrow> addr option" where
  "LoadCheckpoint m stage = (if \<not> enabled m then None else checkpoints m stage)"

definition GetAllCheckpoints :: "CheckpointManager \<Rightarrow> (string \<rightharpoonup> addr)" where
  "GetAllCheckpoints m = (\<lambda>k. checkpoints m k)"

definition DeleteCheckpoint ::
  "bool \<Rightarrow> CheckpointManager \<Rightarrow> string \<Rightarrow> (checkpoint_error + unit) \<times> CheckpointManager" where
  "DeleteCheckpoint storage_ok m stage =
     (if \<not> enabled m then (Inr (), m)
      else let m' = m\<lparr>checkpoints := (checkpoints m)(stage := None)\<rparr>
           in if \<not> storage_ok then (Inl FailedToDeleteCheckpoint, m')
              else (Inr (), m'\<lparr>files := (files m')((cp_jobID m', stage) := None)\<rparr>))"

text \<open>A run of saves, each with its clock reading and whether its write succeeds.\<close>

fun saveAll ::
  "(time \<times> bool \<times> string \<times> addr) list \<Rightarrow> cp_heap \<times> CheckpointManager
     \<Rightarrow> cp_heap \<times> CheckpointManager" where
  "saveAll [] hm = hm"
| "saveAll ((t, ok, stage, a) # rest) hm = saveAll rest (snd (SaveCheckpoint t ok hm stage a))"

definition demo_checkpoint :: Checkpoint where
  "demo_checkpoint =
     \<lparr>Position = AnyString ''12345'', Timestamp = 0,
      Metadata = [''file'' \<mapsto> ''data.csv'', ''offset'' \<mapsto> ''12345'']\<rparr>"

definition demo_cp_manager :: CheckpointManager where
  "demo_cp_manager =
     \<lparr>cp_jobID = ''test-job-2'', checkpoints = Map.empty, files = Map.empty, enabled = True\<rparr>"

definition demo_heap :: cp_heap where
  "demo_heap = [1 \<mapsto> demo_checkpoint, 2 \<mapsto> demo_checkpoint\<lparr>Position := AnyInt 200\<rparr>]"

section \<open>Plugin registry (internal/plugin) and config converter (internal/config/converter.go)\<close>

text \<open>
  What the converter uses of a plugin: whether \<open>Initialize\<close> accepts a configuration mapping
  and whether \<open>Validate\<close> accepts. The registry is its three name-to-plugin tables.
\<close>

record Plugin =
  plugin_name :: string
  initialize_ok :: "(string \<times> yaml) list \<Rightarrow> bool"
  validate_ok :: bool

record Registry =
  inputs :: "string \<rightharpoonup> Plugin"
  processors :: "string \<rightharpoonup> Plugin"
  outputs :: "string \<rightharpoonup> Plugin"

record InputConfig =
  InputType :: string
  InputSettings :: "(string \<times> yaml) list"

record ProcessorConfig =
  ProcessorType :: string
  ProcessorSettings :: "(string \<times> yaml) list"

record OutputConfig =
  OutputType :: string
  OutputSettings :: "(string \<times> yaml) list"

record SettingsConfig =
  BatchSize :: int
  Mode :: string

record PipelineConfig =
  Input :: InputConfig
  Processors :: "ProcessorConfig list"
  Output :: OutputConfig
  Settings :: SettingsConfig

datatype converter_error =
    FailedToParseYAML
  | InputTypeRequired
  | OutputTypeRequired
  | FailedToGetInput string
  | FailedToInitializeInput
  | FailedToGetProcessor string
  | FailedToInitializeProcessor nat
  | FailedToGetOutput string
  | FailedToInitializeOutput

definition ValidateConfig :: "PipelineConfig \<Rightarrow> converter_error option" where
  "ValidateConfig config =
     (if InputType (Input config) = [] then Some InputTypeRequired
      else if OutputType (Output config) = [] then Some OutputTypeRequired
      else None)"

text \<open>\<open>yaml.Unmarshal\<close> into a \<open>PipelineConfig\<close> is the parameter \<open>unmarshal\<close>.\<close>

definition ParseYAML ::
  "(string \<Rightarrow> PipelineConfig option) \<Rightarrow> string \<Rightarrow> converter_error + PipelineConfig" where
  "ParseYAML unmarshal yamlConfig =
     (case unmarshal yamlConfig of
        None \<Rightarrow> Inl FailedToParseYAML
      | Some config \<Rightarrow>
          (case ValidateConfig config of
             Some e \<Rightarrow> Inl e
           | None \<Rightarrow> Inr config))"

record Pipeline =
  pipe_input :: Plugin
  pipe_processors :: "Plugin list"
  pipe_output :: Plugin
  pipe_batchSize :: int

text \<open>
  \<open>BuildPipeline\<close>, with the calls of \<open>Initialize\<close> it makes written down: the second
  component lists, in order, the registry names of the plugins it has initialized (or tried to)
  by the time it returns. The loop over \<open>config.Processors\<close> is \<open>buildProcessors\<close>.
\<close>

fun buildProcessors ::
  "Registry \<Rightarrow> nat \<Rightarrow> ProcessorConfig list \<Rightarrow> Plugin list \<Rightarrow> string list
     \<Rightarrow> (converter_error + Plugin list) \<times> string list" where
  "buildProcessors reg i [] acc log = (Inr acc, log)"
| "buildProcessors reg i (procConfig # rest) acc log =
     (case processors reg (ProcessorType procConfig) of
        None \<Rightarrow> (Inl (FailedToGetProcessor (ProcessorType procConfig)), log)
      | Some processor \<Rightarrow>
          if \<not> initialize_ok processor (ProcessorSettings procConfig)
          then (Inl (FailedToInitializeProcessor i), log @ [ProcessorType procConfig])
          else buildProcessors reg (Suc i) rest (acc @ [processor])
                 (log @ [ProcessorType procConfig]))"

definition BuildPipeline ::
  "Registry \<Rightarrow> PipelineConfig \<Rightarrow> (converter_error + Pipeline) \<times> string list" where
  "BuildPipeline reg config =
     (case inputs reg (InputType (Input config)) of
        None \<Rightarrow> (Inl (FailedToGetInput (InputType (Input config))), [])
      | Some input \<Rightarrow>
          if \<not> initialize_ok input (InputSettings (Input config))
          then (Inl FailedToInitializeInput, [InputType (Input config)])
          else
            (case buildProcessors reg 0 (Processors config) [] [InputType (Input config)] of
               (Inl e, log) \<Rightarrow> (Inl e, log)
             | (Inr procs, log) \<Rightarrow>
                 (case outputs reg (OutputType (Output config)) of
                    None \<Rightarrow> (Inl (FailedToGetOutput (OutputType (Output config))), log)
                  | Some output \<Rightarrow>
                      if \<not> initialize_ok output (OutputSettings (Output config))
                      then (Inl FailedToInitializeOutput, log @ [OutputType (Output config)])
                      else
                        (Inr \<lparr>pipe_input = input, pipe_processors = procs, pipe_output = output,
                              pipe_batchSize =
                                (if BatchSize (Settings config) > 0
                                 then BatchSize (Settings config) else 1000)\<rparr>,
                         log @ [OutputType (Output config)]))))"

definition demo_plugin :: "string \<Rightarrow> Plugin" where
  "demo_plugin name = \<lparr>plugin_name = name, initialize_ok = (\<lambda>_. True), validate_ok = True\<rparr>"

definition demo_registry :: Registry where
  "demo_registry =
     \<lparr>inputs = [''csv'' \<mapsto> demo_plugin ''csv''],
      processors = [''filter'' \<mapsto> demo_plugin ''filter''],
      outputs = [''csv'' \<mapsto> demo_plugin ''csv'']\<rparr>"

definition demo_config :: "string \<Rightarrow> PipelineConfig" where
  "demo_config processor_type =
     \<lparr>Input = \<lparr>InputType = ''csv'', InputSettings = []\<rparr>,
      Processors = [\<lparr>ProcessorType = ''filter'', ProcessorSettings = []\<rparr>,
                    \<lparr>ProcessorType = processor_type, ProcessorSettings = []\<rparr>],
      Output = \<lparr>OutputType = ''csv'', OutputSettings = []\<rparr>,
      Settings = \<lparr>BatchSize = 1000, Mode = ''async''\<rparr>\<rparr>"

section \<open>Concurrent pipeline: the backpressure probe (internal/pipeline/concurrent.go)\<close>

text \<open>
  \<open>isBackpressure\<close> receives the channel as an \<open>interface{}\<close> and switches on its dynamic type,
  which is the static type of the expression the caller passed: a bidirectional channel, a
  send-only view of one, or something else. A channel value is its buffered contents.
  The comparison \<open>float64(length) / float64(capacity) >= p.backpressureThreshold\<close> is the
  parameter \<open>ratio_reached\<close> (of the length and the capacity), so that nothing here depends on
  how floating point rounds.
\<close>

datatype 'b chan_arg =
    BidirChan "'b list"
  | SendOnlyChan "'b list"
  | OtherArg

definition isBackpressure :: "(nat \<Rightarrow> int \<Rightarrow> bool) \<Rightarrow> 'b chan_arg \<Rightarrow> int \<Rightarrow> bool" where
  "isBackpressure ratio_reached ch capacity =
     (case ch of
        BidirChan c \<Rightarrow> ratio_reached (length c) capacity
      | SendOnlyChan c \<Rightarrow> False
      | OtherArg \<Rightarrow> False)"

text \<open>
  The probes of the two producing stages. \<open>runInputReader\<close> and \<open>runProcessor\<close> hold their
  outbound channel as \<open>outputChan chan<- *types.DataBatch\<close> and pass that variable; the stage
  sleeps (100 ms, 50 ms) exactly when its probe answers true.
\<close>

definition runInputReader_probe :: "(nat \<Rightarrow> int \<Rightarrow> bool) \<Rightarrow> 'b list \<Rightarrow> int \<Rightarrow> bool" where
  "runInputReader_probe ratio_reached outputChan inputBufferSize =
     isBackpressure ratio_reached (SendOnlyChan outputChan) inputBufferSize"

definition runProcessor_probe :: "(nat \<Rightarrow> int \<Rightarrow> bool) \<Rightarrow> 'b list \<Rightarrow> int \<Rightarrow> bool" where
  "runProcessor_probe ratio_reached outputChan processorBufferSize =
     isBackpressure ratio_reached (SendOnlyChan outputChan) processorBufferSize"

text \<open>The comparison in exact arithmetic, for a threshold given as a fraction.\<close>

definition exact_ratio_reached :: "int \<Rightarrow> int \<Rightarrow> nat \<Rightarrow> int \<Rightarrow> bool" where
  "exact_ratio_reached num den len capacity =
     (capacity > 0 \<and> den > 0 \<and> int len * den \<ge> num * capacity)"

section \<open>Concurrent pipeline: execution (internal/pipeline/concurrent.go)\<close>

text \<open>
  The plugins, as far as \<open>Execute\<close> can tell them apart. The input is the list of answers its
  successive \<open>ReadBatch\<close> calls give (after the list, \<open>io.EOF\<close>); a processor is a function that
  fails (\<open>None\<close>) or returns a batch (one that returns neither an error nor a batch is not
  covered: \<open>runProcessor\<close> would dereference the nil batch); the output accepts or refuses
  each batch. Saving a checkpoint never changes the course of a stage (a failure is logged
  and dropped), so the checkpoint manager is left out of the execution. The buffer sizes are
  Go \<open>int\<close>s.
\<close>

datatype read_result = RBatch DataBatch | RNil | REOF | RErr

record ConcurrentPipeline =
  procs :: "(DataBatch \<Rightarrow> DataBatch option) list"
  inputBufferSize :: int
  processorBufferSize :: int
  input_connect_ok :: bool
  output_connect_ok :: bool
  write_batch_ok :: "DataBatch \<Rightarrow> bool"
  flush_ok :: bool

datatype stage_error = ReadFailed | ProcessorFailed nat | WriteFailed

datatype exec_error =
    ConnectInputFailed
  | ConnectOutputFailed
  | MakeChanPanic
  | PipelineError stage_error
  | PipelineCancelled
  | FlushFailed

text \<open>
  Where a stage goroutine stands between two communications: at the head of its loop, at the
  \<open>select\<close> that sends a batch downstream, at the send of its error on the error channel, or
  returned (its deferred \<open>close(outputChan)\<close> and \<open>wg.Done()\<close> have run). \<open>Execute\<close> itself is
  at its \<open>select\<close>, at the \<open>wg.Wait()\<close> of the error or cancellation branch, or has returned.
\<close>

datatype stage_pc = Loop | Sending DataBatch | Failing stage_error | Returned

datatype main_pc = MSelect | MJoin exec_error | MReturned "exec_error option"

text \<open>
  The state of one execution. \<open>chans ! 0\<close> is \<open>inputChan\<close>, \<open>chans ! (i + 1)\<close> the outbound channel
  of processor \<open>i\<close>, the last one \<open>outputChan\<close>; a channel is closed when the stage that sends
  on it has returned. \<open>ctx_done\<close> is the caller's context, \<open>cancel_called\<close> the \<open>cancel\<close> of
  \<open>pipelineCtx\<close>. The counters at the end record calls on the plugins.
\<close>

record pstate =
  script :: "read_result list"
  in_pc :: stage_pc
  proc_pc :: "stage_pc list"
  out_pc :: stage_pc
  chans :: "DataBatch list list"
  errorChan :: "stage_error list"
  ctx_done :: bool
  cancel_called :: bool
  done_closed :: bool
  exec_pc :: main_pc
  totalBatches :: nat
  totalRecords :: nat
  delivered :: "DataBatch list"
  flushes :: nat
  input_closes :: nat
  output_closes :: nat

definition pipelineCtx_done :: "pstate \<Rightarrow> bool" where
  "pipelineCtx_done s = (ctx_done s \<or> cancel_called s)"

definition chan_closed :: "pstate \<Rightarrow> nat \<Rightarrow> bool" where
  "chan_closed s j = (if j = 0 then in_pc s = Returned else proc_pc s ! (j - 1) = Returned)"

definition chan_cap :: "ConcurrentPipeline \<Rightarrow> nat \<Rightarrow> int" where
  "chan_cap p j = (if j = 0 then inputBufferSize p else processorBufferSize p)"

text \<open>
  \<open>make(chan *types.DataBatch, size)\<close> panics on a negative size. \<open>Execute\<close> makes
  \<open>inputChan\<close> with \<open>inputBufferSize\<close> and one channel per processor with
  \<open>processorBufferSize\<close>.
\<close>

definition chans_made :: "ConcurrentPipeline \<Rightarrow> bool" where
  "chans_made p = (0 \<le> inputBufferSize p \<and> (procs p = [] \<or> 0 \<le> processorBufferSize p))"

definition all_returned :: "pstate \<Rightarrow> bool" where
  "all_returned s = (in_pc s = Returned \<and> (\<forall>pc \<in> set (proc_pc s). pc = Returned) \<and> out_pc s = Returned)"

text \<open>
  \<open>Execute\<close> up to the start of the goroutines: the two \<open>Connect\<close> calls and the making of
  the channels, with the deferred \<open>Close\<close> of what was connected when it returns early or
  when \<open>make\<close> panics. No goroutine exists after an early return or that panic.
\<close>

definition Execute_start :: "ConcurrentPipeline \<Rightarrow> read_result list \<Rightarrow> bool \<Rightarrow> pstate" where
  "Execute_start p reads ctx_cancelled =
     (let idle = \<lparr>script = reads, in_pc = Returned,
                  proc_pc = replicate (length (procs p)) Returned, out_pc = Returned,
                  chans = replicate (length (procs p) + 1) [], errorChan = [],
                  ctx_done = ctx_cancelled, cancel_called = False, done_closed = False,
                  exec_pc = MSelect, totalBatches = 0, totalRecords = 0, delivered = [],
                  flushes = 0, input_closes = 0, output_closes = 0\<rparr>
      in if \<not> input_connect_ok p
         then idle\<lparr>exec_pc := MReturned (Some ConnectInputFailed)\<rparr>
         else if \<not> output_connect_ok p
         then idle\<lparr>exec_pc := MReturned (Some ConnectOutputFailed), input_closes := 1\<rparr>
         else if \<not> chans_made p
         then idle\<lparr>exec_pc := MReturned (Some MakeChanPanic), input_closes := 1,
                   output_closes := 1\<rparr>
         else idle\<lparr>in_pc := Loop, proc_pc := replicate (length (procs p)) Loop,
                    out_pc := Loop\<rparr>)"

text \<open>
  A \<open>select\<close> over \<open>ctx.Done()\<close> and one other communication: which case runs, given which are
  ready and which one the runtime picks when both are.
\<close>

datatype select_case = TakeDone | TakeOther | Blocked

definition select2 :: "bool \<Rightarrow> bool \<Rightarrow> bool \<Rightarrow> select_case" where
  "select2 pick_done done_ready other_ready =
     (if done_ready \<and> (pick_done \<or> \<not> other_ready) then TakeDone
      else if other_ready then TakeOther
      else Blocked)"

text \<open>The send \<open>p.errorChan <- err\<close> on the channel of capacity 10, then the return.\<close>

definition send_error :: "pstate \<Rightarrow> stage_error \<Rightarrow> pstate option" where
  "send_error s e = (if length (errorChan s) < 10 then Some (s\<lparr>errorChan := errorChan s @ [e]\<rparr>) else None)"

text \<open>
  What a stage does with a batch it has received, up to its next communication:
  \<open>runProcessor\<close> calls \<open>Process\<close> and goes on to send the error, to the head of its loop
  (the \<open>continue\<close> on an empty result) or to send the result; \<open>runOutputWriter\<close> calls
  \<open>WriteBatch\<close> and goes on to send the error or counts the records.
\<close>

definition processBatch :: "ConcurrentPipeline \<Rightarrow> nat \<Rightarrow> DataBatch \<Rightarrow> pstate \<Rightarrow> pstate" where
  "processBatch p i batch s =
     (case (procs p ! i) batch of
        None \<Rightarrow> s\<lparr>proc_pc := (proc_pc s)[i := Failing (ProcessorFailed i)]\<rparr>
      | Some processed \<Rightarrow>
          if IsEmpty processed then s
          else s\<lparr>proc_pc := (proc_pc s)[i := Sending processed]\<rparr>)"

definition writeBatch :: "ConcurrentPipeline \<Rightarrow> DataBatch \<Rightarrow> pstate \<Rightarrow> pstate" where
  "writeBatch p batch s =
     (if \<not> write_batch_ok p batch then s\<lparr>out_pc := Failing WriteFailed\<rparr>
      else s\<lparr>delivered := delivered s @ [batch], totalRecords := totalRecords s + Size batch\<rparr>)"

text \<open>
  The send \<open>outputChan <- batch\<close> on channel \<open>j\<close>, as a case of a \<open>select\<close>. A channel made with
  a positive capacity takes the batch in its buffer when it has room. A channel made with
  capacity 0 is unbuffered: the send can proceed when the stage that reads the channel is at
  the \<open>select\<close> at the head of its loop, and then the batch passes to that stage, which goes
  on with it, in the same step.
\<close>

definition receiver_ready :: "pstate \<Rightarrow> nat \<Rightarrow> bool" where
  "receiver_ready s j = (if j < length (proc_pc s) then proc_pc s ! j = Loop else out_pc s = Loop)"

definition hand_over :: "ConcurrentPipeline \<Rightarrow> nat \<Rightarrow> DataBatch \<Rightarrow> pstate \<Rightarrow> pstate" where
  "hand_over p j batch s =
     (if j < length (proc_pc s) then processBatch p j batch s else writeBatch p batch s)"

definition can_send :: "ConcurrentPipeline \<Rightarrow> pstate \<Rightarrow> nat \<Rightarrow> bool" where
  "can_send p s j =
     (if chan_cap p j = 0 then receiver_ready s j
      else int (length (chans s ! j)) < chan_cap p j)"

definition send :: "ConcurrentPipeline \<Rightarrow> nat \<Rightarrow> DataBatch \<Rightarrow> pstate \<Rightarrow> pstate" where
  "send p j batch s =
     (if chan_cap p j = 0 then hand_over p j batch s
      else s\<lparr>chans := (chans s)[j := chans s ! j @ [batch]]\<rparr>)"

text \<open>
  \<open>runInputReader\<close>, from one communication to the next. Its backpressure probe is false (it
  probes a send-only channel), so the loop body always goes on to \<open>ReadBatch\<close>.
\<close>

definition runInputReader_step :: "ConcurrentPipeline \<Rightarrow> bool \<Rightarrow> pstate \<Rightarrow> pstate option" where
  "runInputReader_step p pick_done s =
     (case in_pc s of
        Returned \<Rightarrow> None
      | Failing e \<Rightarrow> map_option (\<lambda>s'. s'\<lparr>in_pc := Returned\<rparr>) (send_error s e)
      | Loop \<Rightarrow>
          if pipelineCtx_done s then Some (s\<lparr>in_pc := Returned\<rparr>)
          else (case script s of
                  [] \<Rightarrow> Some (s\<lparr>in_pc := Returned\<rparr>)
                | REOF # rest \<Rightarrow> Some (s\<lparr>script := rest, in_pc := Returned\<rparr>)
                | RErr # rest \<Rightarrow> Some (s\<lparr>script := rest, in_pc := Failing ReadFailed\<rparr>)
                | RNil # rest \<Rightarrow> Some (s\<lparr>script := rest, in_pc := Returned\<rparr>)
                | RBatch batch # rest \<Rightarrow>
                    if IsEmpty batch then Some (s\<lparr>script := rest, in_pc := Returned\<rparr>)
                    else Some (s\<lparr>script := rest, in_pc := Sending batch\<rparr>))
      | Sending batch \<Rightarrow>
          (case select2 pick_done (pipelineCtx_done s) (can_send p s 0) of
             TakeDone \<Rightarrow> Some (s\<lparr>in_pc := Returned\<rparr>)
           | TakeOther \<Rightarrow>
               Some ((send p 0 batch s)\<lparr>totalBatches := totalBatches s + 1, in_pc := Loop\<rparr>)
           | Blocked \<Rightarrow> None))"

text \<open>\<open>runProcessor\<close> for the processor of index \<open>i\<close>.\<close>

definition runProcessor_step :: "ConcurrentPipeline \<Rightarrow> nat \<Rightarrow> bool \<Rightarrow> pstate \<Rightarrow> pstate option" where
  "runProcessor_step p i pick_done s =
     (if i \<ge> length (proc_pc s) \<or> i \<ge> length (procs p) \<or> i + 1 \<ge> length (chans s) then None
      else case proc_pc s ! i of
        Returned \<Rightarrow> None
      | Failing e \<Rightarrow>
          map_option (\<lambda>s'. s'\<lparr>proc_pc := (proc_pc s')[i := Returned]\<rparr>) (send_error s e)
      | Loop \<Rightarrow>
          (case select2 pick_done (pipelineCtx_done s)
                  (chans s ! i \<noteq> [] \<or> chan_closed s i) of
             TakeDone \<Rightarrow> Some (s\<lparr>proc_pc := (proc_pc s)[i := Returned]\<rparr>)
           | Blocked \<Rightarrow> None
           | TakeOther \<Rightarrow>
               (case chans s ! i of
                  [] \<Rightarrow> Some (s\<lparr>proc_pc := (proc_pc s)[i := Returned]\<rparr>)
                | batch # rest \<Rightarrow>
                    Some (processBatch p i batch (s\<lparr>chans := (chans s)[i := rest]\<rparr>))))
      | Sending processed \<Rightarrow>
          (case select2 pick_done (pipelineCtx_done s) (can_send p s (i + 1)) of
             TakeDone \<Rightarrow> Some (s\<lparr>proc_pc := (proc_pc s)[i := Returned]\<rparr>)
           | TakeOther \<Rightarrow>
               (let s1 = send p (i + 1) processed s
                in Some (s1\<lparr>proc_pc := (proc_pc s1)[i := Loop]\<rparr>))
           | Blocked \<Rightarrow> None))"

text \<open>\<open>runOutputWriter\<close>, reading the last channel.\<close>

definition runOutputWriter_step :: "ConcurrentPipeline \<Rightarrow> bool \<Rightarrow> pstate \<Rightarrow> pstate option" where
  "runOutputWriter_step p pick_done s =
     (let n = length (chans s) - 1 in
      if chans s = [] then None
      else case out_pc s of
        Returned \<Rightarrow> None
      | Sending _ \<Rightarrow> None
      | Failing e \<Rightarrow> map_option (\<lambda>s'. s'\<lparr>out_pc := Returned\<rparr>) (send_error s e)
      | Loop \<Rightarrow>
          (case select2 pick_done (pipelineCtx_done s)
                  (chans s ! n \<noteq> [] \<or> chan_closed s n) of
             TakeDone \<Rightarrow> Some (s\<lparr>out_pc := Returned\<rparr>)
           | Blocked \<Rightarrow> None
           | TakeOther \<Rightarrow>
               (case chans s ! n of
                  [] \<Rightarrow> Some (s\<lparr>out_pc := Returned\<rparr>)
                | batch # rest \<Rightarrow>
                    Some (writeBatch p batch (s\<lparr>chans := (chans s)[n := rest]\<rparr>)))))"

text \<open>The goroutine that waits for the wait group and closes \<open>done\<close>.\<close>

definition waiter_step :: "pstate \<Rightarrow> pstate option" where
  "waiter_step s =
     (if all_returned s \<and> \<not> done_closed s then Some (s\<lparr>done_closed := True\<rparr>) else None)"

text \<open>
  \<open>Execute\<close> from its \<open>select\<close> on: the case the runtime picks among those ready, then the
  flush or the join, then the deferred \<open>cancel()\<close>, \<open>output.Close()\<close> and \<open>input.Close()\<close>.
\<close>

datatype exec_choice = CaseDone | CaseError | CaseCtxDone | JoinStages

definition Execute_return :: "exec_error option \<Rightarrow> pstate \<Rightarrow> pstate" where
  "Execute_return r s =
     s\<lparr>exec_pc := MReturned r, cancel_called := True,
       output_closes := output_closes s + 1, input_closes := input_closes s + 1\<rparr>"

definition Execute_step :: "ConcurrentPipeline \<Rightarrow> exec_choice \<Rightarrow> pstate \<Rightarrow> pstate option" where
  "Execute_step p choice s =
     (case exec_pc s of
        MReturned _ \<Rightarrow> None
      | MJoin e \<Rightarrow>
          if choice = JoinStages \<and> all_returned s then Some (Execute_return (Some e) s) else None
      | MSelect \<Rightarrow>
          (case choice of
             CaseDone \<Rightarrow>
               if done_closed s
               then Some (Execute_return (if flush_ok p then None else Some FlushFailed)
                            (s\<lparr>flushes := flushes s + 1\<rparr>))
               else None
           | CaseError \<Rightarrow>
               (case errorChan s of
                  [] \<Rightarrow> None
                | e # rest \<Rightarrow>
                    Some (s\<lparr>errorChan := rest, cancel_called := True,
                            exec_pc := MJoin (PipelineError e)\<rparr>))
           | CaseCtxDone \<Rightarrow>
               if ctx_done s
               then Some (s\<lparr>cancel_called := True, exec_pc := MJoin PipelineCancelled\<rparr>)
               else None
           | JoinStages \<Rightarrow> None))"

text \<open>
  One step of the whole: some goroutine moves, or the caller cancels the context. An
  execution is a list of such steps from \<open>Execute_start\<close>, every one of them possible.
\<close>

datatype action =
    InputStep bool
  | ProcStep nat bool
  | OutputStep bool
  | WaiterStep
  | ExecStep exec_choice
  | CancelCtx

fun step :: "ConcurrentPipeline \<Rightarrow> pstate \<Rightarrow> action \<Rightarrow> pstate option" where
  "step p s (InputStep pick_done) = runInputReader_step p pick_done s"
| "step p s (ProcStep i pick_done) = runProcessor_step p i pick_done s"
| "step p s (OutputStep pick_done) = runOutputWriter_step p pick_done s"
| "step p s WaiterStep = waiter_step s"
| "step p s (ExecStep choice) = Execute_step p choice s"
| "step p s CancelCtx =
     (case exec_pc s of
        MReturned _ \<Rightarrow> None
      | _ \<Rightarrow> if ctx_done s then None else Some (s\<lparr>ctx_done := True\<rparr>))"

fun run :: "ConcurrentPipeline \<Rightarrow> pstate \<Rightarrow> action list \<Rightarrow> pstate option" where
  "run p s [] = Some s"
| "run p s (a # as) = (case step p s a of None \<Rightarrow> None | Some s' \<Rightarrow> run p s' as)"

text \<open>
  A bound on the steps left: every batch still to be read, buffered or in a stage's hands is
  counted with the number of communications it can still take part in, every goroutine with
  the steps of its own it has left.
\<close>

fun chans_weight :: "DataBatch list list \<Rightarrow> nat" where
  "chans_weight [] = 0"
| "chans_weight (c # cs) = length c * (2 * length cs + 2) + chans_weight cs"

definition pc_weight :: "nat \<Rightarrow> stage_pc \<Rightarrow> nat" where
  "pc_weight w pc = (case pc of Loop \<Rightarrow> 2 | Sending _ \<Rightarrow> 2 + w | Failing _ \<Rightarrow> 1 | Returned \<Rightarrow> 0)"

fun procs_weight :: "stage_pc list \<Rightarrow> nat" where
  "procs_weight [] = 0"
| "procs_weight (pc # pcs) = pc_weight (2 * length pcs + 3) pc + procs_weight pcs"

definition steps_left :: "pstate \<Rightarrow> nat" where
  "steps_left s =
     length (script s) * (2 * length (proc_pc s) + 4)
     + pc_weight (2 * length (proc_pc s) + 3) (in_pc s)
     + procs_weight (proc_pc s)
     + pc_weight 0 (out_pc s)
     + chans_weight (chans s)
     + (if done_closed s then 0 else 1)
     + (case exec_pc s of MSelect \<Rightarrow> 2 | MJoin _ \<Rightarrow> 1 | MReturned _ \<Rightarrow> 0)
     + (if ctx_done s then 0 else 1)"

text \<open>Where the stage that sends on channel \<open>j\<close> stands.\<close>

definition sender_pc :: "pstate \<Rightarrow> nat \<Rightarrow> stage_pc" where
  "sender_pc s j = (if j = 0 then in_pc s else proc_pc s ! (j - 1))"

definition shape :: "ConcurrentPipeline \<Rightarrow> pstate \<Rightarrow> bool" where
  "shape p s = (length (proc_pc s) = length (procs p) \<and> length (chans s) = length (procs p) + 1)"

text \<open>
  What the property of all-filtered executions supposes of an execution. A batch is filtered
  out by a chain of processors when some processor of the chain, fed what the ones before it
  returned, returns an empty batch, none before it having failed. A clean run connects, makes
  its channels and flushes without error, and reads no error.
\<close>

fun filtered_out :: "(DataBatch \<Rightarrow> DataBatch option) list \<Rightarrow> DataBatch \<Rightarrow> bool" where
  "filtered_out [] b = False"
| "filtered_out (f # fs) b =
     (case f b of None \<Rightarrow> False | Some b' \<Rightarrow> IsEmpty b' \<or> filtered_out fs b')"

fun read_filtered :: "ConcurrentPipeline \<Rightarrow> read_result \<Rightarrow> bool" where
  "read_filtered p (RBatch b) = (IsEmpty b \<or> filtered_out (procs p) b)"
| "read_filtered p RErr = False"
| "read_filtered p _ = True"

definition clean_run :: "ConcurrentPipeline \<Rightarrow> read_result list \<Rightarrow> bool" where
  "clean_run p reads =
     (input_connect_ok p \<and> output_connect_ok p \<and> chans_made p \<and> flush_ok p
      \<and> list_all (read_filtered p) reads)"

text \<open>The invariant of a clean run in which nobody cancels.\<close>

fun pc_quiet :: "(DataBatch \<Rightarrow> DataBatch option) list \<Rightarrow> stage_pc \<Rightarrow> bool" where
  "pc_quiet fs (Sending b) = filtered_out fs b"
| "pc_quiet fs (Failing e) = False"
| "pc_quiet fs _ = True"

definition transit_ok :: "ConcurrentPipeline \<Rightarrow> pstate \<Rightarrow> bool" where
  "transit_ok p s =
     (list_all (read_filtered p) (script s)
      \<and> pc_quiet (procs p) (in_pc s)
      \<and> (\<forall>i < length (proc_pc s). pc_quiet (drop (Suc i) (procs p)) (proc_pc s ! i))
      \<and> (out_pc s = Loop \<or> out_pc s = Returned)
      \<and> (\<forall>j < length (chans s). \<forall>b \<in> set (chans s ! j). filtered_out (drop j (procs p)) b))"

definition order_ok :: "pstate \<Rightarrow> bool" where
  "order_ok s =
     ((\<forall>i < length (proc_pc s). proc_pc s ! i = Returned \<longrightarrow> chan_closed s i \<and> chans s ! i = [])
      \<and> (out_pc s = Returned \<longrightarrow>
            chan_closed s (length (proc_pc s)) \<and> chans s ! length (proc_pc s) = []))"

definition control_ok :: "pstate \<Rightarrow> bool" where
  "control_ok s =
     (\<not> ctx_done s \<and> errorChan s = [] \<and> (done_closed s \<longrightarrow> all_returned s)
      \<and> delivered s = [] \<and> totalRecords s = 0
      \<and> ((exec_pc s = MSelect \<and> \<not> cancel_called s \<and> flushes s = 0
             \<and> input_closes s = 0 \<and> output_closes s = 0)
          \<or> (exec_pc s = MReturned None \<and> done_closed s \<and> flushes s = 1
             \<and> input_closes s = 1 \<and> output_closes s = 1)))"

definition quiet :: "ConcurrentPipeline \<Rightarrow> pstate \<Rightarrow> bool" where
  "quiet p s = (shape p s \<and> transit_ok p s \<and> order_ok s \<and> control_ok s)"

text \<open>Small concrete pipelines and batches, for evaluation.\<close>

definition demo_batch :: "nat \<Rightarrow> DataBatch" where
  "demo_batch k =
     \<lparr>BatchSchema =
        \<lparr>Columns = [\<lparr>Name = ''id'', ColumnDataType = DataTypeInt, Nullable = False,
                      DefaultValue = AnyNil\<rparr>,
                    \<lparr>Name = ''name'', ColumnDataType = DataTypeString, Nullable = False,
                      DefaultValue = AnyNil\<rparr>],
         PrimaryKeys = []\<rparr>,
      Records = map (\<lambda>i. \<lparr>Values = [AnyInt (int i), AnyString ''test''],
                           RecordMetadata = Map.empty\<rparr>) [0..<k],
      BatchMetadata = Map.empty, BatchCheckpoint = None\<rparr>"

definition filter_all :: "DataBatch \<Rightarrow> DataBatch option" where
  "filter_all b = Some (b\<lparr>Records := []\<rparr>)"

definition demo_pipeline :: "(DataBatch \<Rightarrow> DataBatch option) list \<Rightarrow> ConcurrentPipeline" where
  "demo_pipeline fs =
     \<lparr>procs = fs, inputBufferSize = 10, processorBufferSize = 10, input_connect_ok = True,
      output_connect_ok = True, write_batch_ok = (\<lambda>_. True), flush_ok = True\<rparr>"


chapter \<open>Properties\<close>

section \<open>Task queue\<close>

lemma insertByPriority_split:
  "insertByPriority t xs =
     takeWhile (\<lambda>x. Priority x \<ge> Priority t) xs @ t # dropWhile (\<lambda>x. Priority x \<ge> Priority t) xs"
  by (induction xs) auto

lemma insertByPriority_sorted:
  "byPriorityDesc xs \<Longrightarrow> byPriorityDesc (insertByPriority t xs)"
  unfolding byPriorityDesc_def
  by (induction xs) (auto simp: insertByPriority_split dest: set_takeWhileD set_dropWhileD)

lemma insertByPriority_mset: "mset (insertByPriority t xs) = add_mset t (mset xs)"
  by (induction xs) auto

lemma insertByPriority_filter:
  assumes "byPriorityDesc xs"
  shows "filter (\<lambda>x. Priority x = p) (insertByPriority t xs) =
     filter (\<lambda>x. Priority x = p) (xs @ [t])"
  using assms unfolding byPriorityDesc_def
proof (induction xs)
  case Nil
  then show ?case by simp
next
  case (Cons a xs)
  show ?case
  proof (cases "Priority t > Priority a")
    case True
    with Cons.prems have "\<forall>x\<in>set (a # xs). Priority x \<noteq> Priority t" by auto
    then have "filter (\<lambda>x. Priority x = Priority t) (a # xs) = []"
      by (simp only: filter_empty_conv)
    with True show ?thesis by (cases "p = Priority t") auto
  next
    case False
    with Cons show ?thesis by simp
  qed
qed

lemma sort_key_byPriorityDesc: "byPriorityDesc (sort_key prio_key xs)"
proof -
  have "sorted (map prio_key (sort_key prio_key xs))" by simp
  then show ?thesis unfolding byPriorityDesc_def sorted_map by (simp add: sorted_wrt_iff_nth_less)
qed

lemma insertByPriority_sort_key:
  "insertByPriority t (sort_key prio_key xs) = sort_key prio_key (xs @ [t])"
proof (rule sym, rule properties_for_sort_key)
  let ?ys = "insertByPriority t (sort_key prio_key xs)"
  show "mset ?ys = mset (xs @ [t])" by (simp add: insertByPriority_mset)
  have s: "byPriorityDesc ?ys"
    by (rule insertByPriority_sorted) (rule sort_key_byPriorityDesc)
  then show "sorted (map prio_key ?ys)"
    by (simp add: byPriorityDesc_def sorted_map)
  fix k :: Task
  have "filter (\<lambda>x. Priority x = Priority k) ?ys =
        filter (\<lambda>x. Priority x = Priority k) (sort_key prio_key xs @ [t])"
    by (rule insertByPriority_filter) (rule sort_key_byPriorityDesc)
  also have "\<dots> = filter (\<lambda>x. Priority x = Priority k) (xs @ [t])"
    using sort_key_stable[of prio_key "- Priority k" xs] by simp
  finally show "filter (\<lambda>x. prio_key k = prio_key x) ?ys = filter (\<lambda>x. prio_key k = prio_key x) (xs @ [t])"
    by (simp add: eq_commute)
qed

lemma filter_head_not_preceded:
  "filter P xs = h # r \<Longrightarrow> P t \<Longrightarrow> t \<in> set (takeWhile (\<lambda>z. z \<noteq> h) xs) \<Longrightarrow> False"
  by (induction xs) (auto split: if_splits)

lemma precedes_append_mem: "y \<in> set xs \<Longrightarrow> precedes x y (xs @ zs) = precedes x y xs"
  by (simp add: precedes_def takeWhile_append1) 

lemma precedes_mem: "precedes x y xs \<Longrightarrow> x \<in> set xs"
  unfolding precedes_def by (auto dest: set_takeWhileD)


lemma takeWhile_neq_snoc: "h \<notin> set xs \<Longrightarrow> takeWhile (\<lambda>z. z \<noteq> h) (xs @ [h]) = xs"
  by (induction xs) auto

lemma queue_step_enq_inv:
  assumes inv: "queue_inv (q, acc, del)"
    and enq: "Enqueue q t = Inr q'"
    and dist: "distinct (acc @ [t])"
  shows "queue_inv (q', acc @ [t], del)"
proof -
  from inv have nc: "\<not> closed q" and sub: "set del \<subseteq> set acc"
    and K: "tasks q = sort_key prio_key (filter (\<lambda>t. t \<notin> set del) acc)"
    and J: "\<And>a b. precedes a b acc \<Longrightarrow> Priority b \<le> Priority a \<Longrightarrow> b \<in> set del \<Longrightarrow> precedes a b del"
    unfolding queue_inv_def by auto
  from enq have q': "tasks q' = insertByPriority t (tasks q)" "closed q' = closed q"
    by (auto simp: Enqueue_def split: if_splits)
  from dist sub have tnd: "t \<notin> set del" by auto
  have "tasks q' = sort_key prio_key (filter (\<lambda>t. t \<notin> set del) (acc @ [t]))"
    using q'(1) K tnd by (simp add: insertByPriority_sort_key)
  moreover have "precedes a b del"
    if "precedes a b (acc @ [t])" "Priority b \<le> Priority a" "b \<in> set del" for a b
  proof -
    from that(3) sub have "b \<in> set acc" by auto
    with that(1) have "precedes a b acc" by (simp add: precedes_append_mem)
    with that show ?thesis by (auto intro: J)
  qed
  ultimately show ?thesis
    unfolding queue_inv_def using nc q'(2) sub by auto
qed

lemma queue_step_deq_inv:
  assumes inv: "queue_inv (q, acc, del)"
    and hd: "tasks q = h # rest"
    and dist: "distinct acc"
  shows "queue_inv (q\<lparr>tasks := rest, dequeued := dequeued q + 1\<rparr>, acc, del @ [h])"
proof -
  let ?pending = "filter (\<lambda>t. t \<notin> set del) acc"
  from inv have nc: "\<not> closed q" and sub: "set del \<subseteq> set acc"
    and K: "tasks q = sort_key prio_key ?pending"
    and J: "\<And>a b. precedes a b acc \<Longrightarrow> Priority b \<le> Priority a \<Longrightarrow> b \<in> set del \<Longrightarrow> precedes a b del"
    unfolding queue_inv_def by auto
  from K hd have srt: "sort_key prio_key ?pending = h # rest" by simp
  then have "h \<in> set (sort_key prio_key ?pending)" by simp
  then have hp: "h \<in> set ?pending" by simp
  then have hacc: "h \<in> set acc" and hnd: "h \<notin> set del" by auto
  from dist have "distinct (sort_key prio_key ?pending)" by simp
  with srt have hnr: "h \<notin> set rest" by simp
  have "filter (\<lambda>t. t \<notin> set (del @ [h])) acc = filter (\<lambda>t. t \<noteq> h) ?pending"
    by (auto intro: filter_cong)
  then have "sort_key prio_key (filter (\<lambda>t. t \<notin> set (del @ [h])) acc)
      = filter (\<lambda>t. t \<noteq> h) (sort_key prio_key ?pending)"
    by (simp add: filter_sort)
  also have "\<dots> = rest" using srt hnr by (auto simp: filter_id_conv)
  finally have K': "rest = sort_key prio_key (filter (\<lambda>t. t \<notin> set (del @ [h])) acc)" by simp
  have J': "precedes a b (del @ [h])"
    if pr: "precedes a b acc" and le: "Priority b \<le> Priority a" and mem: "b \<in> set (del @ [h])" for a b
  proof (cases "b \<in> set del")
    case True
    with pr le have "precedes a b del" by (auto intro: J)
    with True show ?thesis by (simp add: precedes_append_mem)
  next
    case False
    with mem have bh: "b = h" by simp
    have "a \<in> set del"
    proof (rule ccontr)
      assume nd: "a \<notin> set del"
      from pr have aacc: "a \<in> set acc" by (rule precedes_mem)
      with nd have ap: "a \<in> set ?pending" by simp
      have "sorted (map prio_key (h # rest))" using srt[symmetric] by (simp only: sorted_sort_key)
      moreover from ap have "a \<in> set (h # rest)" using srt[symmetric] by (simp only: set_sort) 
      ultimately have "Priority a \<le> Priority h" by auto
      with le bh have eq: "Priority a = Priority h" by simp
      have "filter (\<lambda>x. Priority x = Priority h) (sort_key prio_key ?pending)
          = filter (\<lambda>x. Priority x = Priority h) ?pending"
        using sort_key_stable[of prio_key "- Priority h" ?pending] by simp
      with srt have "filter (\<lambda>x. Priority x = Priority h) ?pending
          = h # filter (\<lambda>x. Priority x = Priority h) rest" by simp
      then have "filter (\<lambda>x. x \<notin> set del \<and> Priority x = Priority h) acc
          = h # filter (\<lambda>x. Priority x = Priority h) rest" by (simp add: conj_commute)
      moreover have "a \<notin> set del \<and> Priority a = Priority h" using nd eq by simp
      moreover have "a \<in> set (takeWhile (\<lambda>z. z \<noteq> h) acc)" using pr bh by (simp add: precedes_def)
      ultimately show False by (rule filter_head_not_preceded)
    qed
    then show ?thesis using bh hnd by (simp add: precedes_def takeWhile_neq_snoc)
  qed
  show ?thesis
    unfolding queue_inv_def using nc sub hacc K' J' by auto
qed

lemma queue_step_acc_prefix:
  "queue_step s op = s' \<Longrightarrow> \<exists>zs. fst (snd s') = fst (snd s) @ zs"
  by (cases s; cases op) (auto split: sum.splits option.splits prod.splits)

lemma queue_step_inv:
  assumes "queue_inv s" and "distinct (fst (snd (queue_step s op)))"
  shows "queue_inv (queue_step s op)"
proof -
  obtain q acc del where s: "s = (q, acc, del)" by (cases s)
  from assms(1) s have nc: "\<not> closed q" by (simp add: queue_inv_def)
  show ?thesis
  proof (cases op)
    case (Enq t)
    show ?thesis
    proof (cases "Enqueue q t")
      case (Inl e)
      with Enq s assms(1) show ?thesis by simp
    next
      case (Inr q')
      with Enq s assms(2) have "distinct (acc @ [t])" by simp
      from queue_step_enq_inv[OF assms(1)[unfolded s] Inr this] Enq s Inr show ?thesis by simp
    qed
  next
    case Deq
    show ?thesis
    proof (cases "tasks q")
      case Nil
      with Deq s nc assms(1) show ?thesis by (simp add: Dequeue_def)
    next
      case (Cons h rest)
      from Deq s nc Cons assms(2) have "distinct acc" by (simp add: Dequeue_def)
      from queue_step_deq_inv[OF assms(1)[unfolded s] Cons this] Deq s nc Cons
      show ?thesis by (simp add: Dequeue_def)
    qed
  qed
qed

lemma queue_foldl_acc_prefix:
  "\<exists>zs. fst (snd (foldl queue_step s ops)) = fst (snd s) @ zs"
proof (induction ops arbitrary: s)
  case Nil
  then show ?case by simp
next
  case (Cons op ops)
  from queue_step_acc_prefix[of s op] obtain zs1 where
    a: "fst (snd (queue_step s op)) = fst (snd s) @ zs1" by blast
  from Cons[of "queue_step s op"] obtain zs2 where
    "fst (snd (foldl queue_step (queue_step s op) ops)) = fst (snd (queue_step s op)) @ zs2" by blast
  with a show ?case by simp
qed

lemma queue_foldl_inv:
  "queue_inv s \<Longrightarrow> distinct (fst (snd (foldl queue_step s ops))) \<Longrightarrow>
     queue_inv (foldl queue_step s ops)"
proof (induction ops arbitrary: s)
  case Nil
  then show ?case by simp
next
  case (Cons op ops)
  from queue_foldl_acc_prefix[of "queue_step s op" ops] obtain zs where
    "fst (snd (foldl queue_step (queue_step s op) ops)) = fst (snd (queue_step s op)) @ zs" by blast
  with Cons.prems(2) have "distinct (fst (snd (queue_step s op)))" by simp
  with Cons.prems(1) have "queue_inv (queue_step s op)" by (rule queue_step_inv)
  with Cons.IH Cons.prems(2) show ?case by simp
qed

lemma queue_inv_init: "queue_inv (NewMemoryQueue cap, [], [])"
  by (simp add: queue_inv_def NewMemoryQueue_def precedes_def)

text \<open>
  C4. From a new queue, after any sequence of enqueues and dequeues (tasks told apart as the
  pointers of the source are): the queue is sorted by priority descending; it is the stable
  sort of the accepted tasks not yet returned, so insertion order is kept among equal
  priorities; a dequeue returns and removes the head; and a task accepted before another of
  lower or equal priority is returned before it.
\<close>

theorem queue_priority_fifo_order:
  assumes run: "queue_run (NewMemoryQueue cap) ops = (q, acc, del)"
    and dist: "distinct acc"
  shows "byPriorityDesc (tasks q)
    \<and> tasks q = sort_key (\<lambda>t. - Priority t) (filter (\<lambda>t. t \<notin> set del) acc)
    \<and> (\<forall>p. filter (\<lambda>x. Priority x = p) (tasks q)
             = filter (\<lambda>x. Priority x = p) (filter (\<lambda>t. t \<notin> set del) acc))
    \<and> (\<forall>t rest. tasks q = t # rest \<longrightarrow>
          Dequeue False q = (Some (Inr t), q\<lparr>tasks := rest, dequeued := dequeued q + 1\<rparr>))
    \<and> (\<forall>t t'. precedes t t' acc \<and> Priority t' \<le> Priority t \<and> t' \<in> set del
          \<longrightarrow> precedes t t' del)"
proof -
  have "queue_inv (foldl queue_step (NewMemoryQueue cap, [], []) ops)"
    by (rule queue_foldl_inv[OF queue_inv_init]) (use run dist in \<open>simp add: queue_run_def\<close>)
  with run have inv: "queue_inv (q, acc, del)" by (simp add: queue_run_def)
  then have K: "tasks q = sort_key (\<lambda>t. - Priority t) (filter (\<lambda>t. t \<notin> set del) acc)"
    and nc: "\<not> closed q"
    and J: "\<forall>t t'. precedes t t' acc \<and> Priority t' \<le> Priority t \<and> t' \<in> set del
          \<longrightarrow> precedes t t' del"
    unfolding queue_inv_def by auto
  have S: "byPriorityDesc (tasks q)" unfolding K by (rule sort_key_byPriorityDesc)
  have F: "filter (\<lambda>x. Priority x = p) (tasks q)
             = filter (\<lambda>x. Priority x = p) (filter (\<lambda>t. t \<notin> set del) acc)" for p
  proof -
    have "filter (\<lambda>x. Priority x = p) (sort_key (\<lambda>t. - Priority t) xs)
        = filter (\<lambda>x. Priority x = p) xs" for xs :: "Task list"
      using sort_key_stable[of "\<lambda>t. - Priority t" "- p" xs] by simp
    then show ?thesis unfolding K .
  qed
  have D: "Dequeue False q = (Some (Inr t), q\<lparr>tasks := rest, dequeued := dequeued q + 1\<rparr>)"
    if "tasks q = t # rest" for t rest
    using that nc by (simp add: Dequeue_def)
  from S K F D J show ?thesis by blast
qed

theorem queue_priority_fifo_order_witness:
  "queue_run (NewMemoryQueue 10)
      [Enq (mkTask ''a'' 1), Enq (mkTask ''b'' 10), Enq (mkTask ''c'' 5), Deq, Deq, Deq]
    = (\<lparr>tasks = [], maxSize = 10, closed = False, enqueued = 3, dequeued = 3, failed = 0\<rparr>,
       [mkTask ''a'' 1, mkTask ''b'' 10, mkTask ''c'' 5],
       [mkTask ''b'' 10, mkTask ''c'' 5, mkTask ''a'' 1])
   \<and> precedes (mkTask ''b'' 10) (mkTask ''c'' 5) [mkTask ''b'' 10, mkTask ''c'' 5, mkTask ''a'' 1]"
proof -
  have run: "queue_run (NewMemoryQueue 10)
      [Enq (mkTask ''a'' 1), Enq (mkTask ''b'' 10), Enq (mkTask ''c'' 5), Deq, Deq, Deq]
    = (\<lparr>tasks = [], maxSize = 10, closed = False, enqueued = 3, dequeued = 3, failed = 0\<rparr>,
       [mkTask ''a'' 1, mkTask ''b'' 10, mkTask ''c'' 5],
       [mkTask ''b'' 10, mkTask ''c'' 5, mkTask ''a'' 1])"
    by (simp add: queue_run_def NewMemoryQueue_def Enqueue_def Dequeue_def mkTask_def)
  have dist: "distinct [mkTask ''a'' 1, mkTask ''b'' 10, mkTask ''c'' 5]"
    by (simp add: mkTask_def)
  have pre: "precedes (mkTask ''b'' 10) (mkTask ''c'' 5) [mkTask ''a'' 1, mkTask ''b'' 10, mkTask ''c'' 5]"
    by (simp add: precedes_def mkTask_def)
  from queue_priority_fifo_order[OF run dist] pre
  have "precedes (mkTask ''b'' 10) (mkTask ''c'' 5) [mkTask ''b'' 10, mkTask ''c'' 5, mkTask ''a'' 1]"
    by (simp add: mkTask_def)
  with run show ?thesis by simp
qed

section \<open>Job manager\<close>

lemma validateStateTransition_allowed:
  "validateStateTransition from to = None \<longleftrightarrow> (from, to) \<in> allowed_transitions"
  unfolding validateStateTransition_def validTransitions_def allowed_transitions_def
    JobStatusDraft_def JobStatusReady_def JobStatusRunning_def JobStatusPaused_def
    JobStatusCompleted_def JobStatusFailed_def
  by (simp split: option.splits) 

lemma validateStateTransition_error:
  "validateStateTransition from to = Some e \<Longrightarrow>
     e = NoValidTransitionsFrom from \<or> e = InvalidStateTransition from to"
  unfolding validateStateTransition_def by (auto split: option.splits if_splits)



lemma lookup_job_id: "lookup_job rows j = Some r \<Longrightarrow> JobID r = j"
  unfolding lookup_job_def by (auto simp: find_Some_iff)

lemma store_GetJob_Inr:
  "store_GetJob ok rows j = Inr row \<longleftrightarrow> ok \<and> lookup_job rows j = Some row"
  unfolding store_GetJob_def by (auto split: option.splits)

lemma store_GetJob_Inl:
  "store_GetJob ok rows j = Inl e \<longleftrightarrow>
     (\<not> ok \<and> e = DBFault) \<or> (ok \<and> lookup_job rows j = None \<and> e = RowNotFound j)"
  unfolding store_GetJob_def by (auto split: option.splits)

lemma Status_updated_row [simp]: "Status (updated_row t job old) = Status job"
  and JobID_updated_row [simp]: "JobID (updated_row t job old) = JobID job"
  by (simp_all add: updated_row_def job_row_def)

lemma lookup_job_UpdateJob:
  assumes "store_UpdateJob ok t rows job = Inr rows'"
  shows "lookup_job rows' j =
     (if j = JobID job then map_option (updated_row t job) (lookup_job rows j)
      else lookup_job rows j)"
proof -
  from assms have r: "rows' = map (\<lambda>old. if JobID old = JobID job then updated_row t job old else old) rows"
    by (simp add: store_UpdateJob_def split: if_splits)
  show ?thesis unfolding r lookup_job_def by (induction rows) auto
qed

lemma find_snoc:
  "find P (xs @ [y]) = (case find P xs of None \<Rightarrow> (if P y then Some y else None) | Some x \<Rightarrow> Some x)"
  by (induction xs) auto

lemma lookup_job_SaveJob:
  assumes "store_SaveJob ok rows job = Inr rows'"
  shows "lookup_job rows (JobID job) = None"
    and "lookup_job rows' j = (if j = JobID job then Some (job_row job) else lookup_job rows j)"
proof -
  from assms have n: "lookup_job rows (JobID job) = None" and r: "rows' = rows @ [job_row job]"
    by (auto simp: store_SaveJob_def split: if_splits option.splits)
  show "lookup_job rows (JobID job) = None" by (rule n)
  show "lookup_job rows' j = (if j = JobID job then Some (job_row job) else lookup_job rows j)"
    using n unfolding r lookup_job_def
    by (auto simp: find_snoc job_row_def split: option.splits)
qed

lemma lookup_job_DeleteJob:
  assumes "store_DeleteJob ok rows k = Inr rows'"
  shows "lookup_job rows' j = (if j = k then None else lookup_job rows j)"
proof -
  from assms have r: "rows' = filter (\<lambda>r. JobID r \<noteq> k) rows"
    by (simp add: store_DeleteJob_def split: if_splits)
  show ?thesis unfolding r lookup_job_def by (induction rows) auto
qed

lemma status_changes_same: "store m' = store m \<Longrightarrow> status_changes m m' = {}"
  by (auto simp: status_changes_def)

lemma status_changes_update:
  assumes "store_UpdateJob ok t (store m) job = Inr (store m')"
    and "lookup_job (store m) (JobID job) = Some old"
  shows "status_changes m m' \<subseteq> {(Status old, Status job)}"
  using assms(2) unfolding status_changes_def
  by (auto simp: lookup_job_UpdateJob[OF assms(1)] split: if_splits)


lemma validateStateTransition_Some:
  "validateStateTransition from to = Some e \<longleftrightarrow>
     (from, to) \<notin> allowed_transitions \<and>
     e = (if map_of validTransitions from = None then NoValidTransitionsFrom from
          else InvalidStateTransition from to)"
  using validateStateTransition_allowed[of "from" to]
  unfolding validateStateTransition_def by (auto split: option.splits if_splits)

lemma StartJob_ok:
  assumes "StartJob env m j = (Inr (), m')"
  shows "\<exists>old. lookup_job (store m) j = Some old \<and> (Status old, JobStatusRunning) \<in> allowed_transitions
          \<and> store_UpdateJob True (db_now env) (store m)
               (old\<lparr>Status := JobStatusRunning, UpdatedAt := now env\<rparr>) = Inr (store m')"
  using assms unfolding StartJob_def Let_def
  by (auto simp: store_GetJob_Inr validateStateTransition_allowed store_UpdateJob_def
      split: sum.splits option.splits if_splits)

lemma StartJob_fail:
  assumes "StartJob env m j = (Inl e, m')"
  shows "m' = m"
  using assms unfolding StartJob_def Let_def
  by (auto split: sum.splits option.splits if_splits)

lemma StartJob_reject:
  assumes "read_ok env" and "lookup_job (store m) j = Some old"
    and "(Status old, JobStatusRunning) \<notin> allowed_transitions"
  shows "StartJob env m j =
     (Inl (if Status old = JobStatusRunning then CannotStartFromStatus (Status old)
           else if map_of validTransitions (Status old) = None
                then NoValidTransitionsFrom (Status old)
           else InvalidStateTransition (Status old) JobStatusRunning), m)"
proof -
  from assms(1,2) have g: "store_GetJob (read_ok env) (store m) j = Inr old"
    by (simp add: store_GetJob_Inr)
  from assms(3) obtain e where v: "validateStateTransition (Status old) JobStatusRunning = Some e"
    using validateStateTransition_allowed[of "Status old" JobStatusRunning] by (cases "validateStateTransition (Status old) JobStatusRunning") auto
  then have "e = (if map_of validTransitions (Status old) = None
                then NoValidTransitionsFrom (Status old)
           else InvalidStateTransition (Status old) JobStatusRunning)"
    by (simp add: validateStateTransition_Some)
  with g v show ?thesis unfolding StartJob_def by simp
qed


lemma PauseJob_ok:
  assumes "PauseJob env m j = (Inr (), m')"
  shows "\<exists>old. lookup_job (store m) j = Some old \<and> (Status old, JobStatusPaused) \<in> allowed_transitions
          \<and> store_UpdateJob True (db_now env) (store m)
               (old\<lparr>Status := JobStatusPaused, UpdatedAt := now env\<rparr>) = Inr (store m')"
  using assms unfolding PauseJob_def Let_def
  by (auto simp: store_GetJob_Inr validateStateTransition_allowed store_UpdateJob_def
      split: sum.splits option.splits if_splits)

lemma PauseJob_fail:
  assumes "PauseJob env m j = (Inl e, m')"
  shows "m' = m"
  using assms unfolding PauseJob_def Let_def
  by (auto split: sum.splits option.splits if_splits)

lemma PauseJob_reject:
  assumes "read_ok env" and "lookup_job (store m) j = Some old"
    and "(Status old, JobStatusPaused) \<notin> allowed_transitions"
  shows "PauseJob env m j =
     (Inl (if map_of validTransitions (Status old) = None
                then NoValidTransitionsFrom (Status old)
           else InvalidStateTransition (Status old) JobStatusPaused), m)"
proof -
  from assms(1,2) have g: "store_GetJob (read_ok env) (store m) j = Inr old"
    by (simp add: store_GetJob_Inr)
  from assms(3) obtain e where v: "validateStateTransition (Status old) JobStatusPaused = Some e"
    using validateStateTransition_allowed[of "Status old" JobStatusPaused]
    by (cases "validateStateTransition (Status old) JobStatusPaused") auto
  then have "e = (if map_of validTransitions (Status old) = None
                then NoValidTransitionsFrom (Status old)
           else InvalidStateTransition (Status old) JobStatusPaused)"
    by (simp add: validateStateTransition_Some)
  with g v show ?thesis unfolding PauseJob_def by simp
qed

lemma ResumeJob_ok:
  assumes "ResumeJob env m j = (Inr (), m')"
  shows "\<exists>old. lookup_job (store m) j = Some old \<and> (Status old, JobStatusRunning) \<in> allowed_transitions
          \<and> store_UpdateJob True (db_now env) (store m)
               (old\<lparr>Status := JobStatusRunning, UpdatedAt := now env\<rparr>) = Inr (store m')"
  using assms unfolding ResumeJob_def Let_def
  by (auto simp: store_GetJob_Inr validateStateTransition_allowed store_UpdateJob_def
      split: sum.splits option.splits if_splits)

lemma ResumeJob_fail:
  assumes "ResumeJob env m j = (Inl e, m')"
  shows "m' = m"
  using assms unfolding ResumeJob_def Let_def
  by (auto split: sum.splits option.splits if_splits)

lemma ResumeJob_reject:
  assumes "read_ok env" and "lookup_job (store m) j = Some old"
    and "(Status old, JobStatusRunning) \<notin> allowed_transitions"
  shows "ResumeJob env m j =
     (Inl (if map_of validTransitions (Status old) = None
                then NoValidTransitionsFrom (Status old)
           else InvalidStateTransition (Status old) JobStatusRunning), m)"
proof -
  from assms(1,2) have g: "store_GetJob (read_ok env) (store m) j = Inr old"
    by (simp add: store_GetJob_Inr)
  from assms(3) obtain e where v: "validateStateTransition (Status old) JobStatusRunning = Some e"
    using validateStateTransition_allowed[of "Status old" JobStatusRunning]
    by (cases "validateStateTransition (Status old) JobStatusRunning") auto
  then have "e = (if map_of validTransitions (Status old) = None
                then NoValidTransitionsFrom (Status old)
           else InvalidStateTransition (Status old) JobStatusRunning)"
    by (simp add: validateStateTransition_Some)
  with g v show ?thesis unfolding ResumeJob_def by simp
qed

lemma StopJob_ok:
  assumes "StopJob env m j = (Inr (), m')"
  shows "\<exists>old. lookup_job (store m) j = Some old \<and> (Status old, JobStatusCompleted) \<in> allowed_transitions
          \<and> store_UpdateJob True (db_now env) (store m)
               (old\<lparr>Status := JobStatusCompleted, UpdatedAt := now env\<rparr>) = Inr (store m')"
  using assms unfolding StopJob_def Let_def
  by (auto simp: store_GetJob_Inr allowed_transitions_def store_UpdateJob_def
      split: sum.splits option.splits if_splits)

lemma StopJob_fail:
  assumes "StopJob env m j = (Inl e, m')"
  shows "store m' = store m"
  using assms unfolding StopJob_def Let_def
  by (auto split: sum.splits option.splits if_splits)

lemma allowed_to_completed:
  "(from, JobStatusCompleted) \<in> allowed_transitions \<longleftrightarrow>
     from = JobStatusRunning \<or> from = JobStatusPaused"
  unfolding allowed_transitions_def
    JobStatusDraft_def JobStatusReady_def JobStatusRunning_def JobStatusPaused_def
    JobStatusCompleted_def JobStatusFailed_def
  by auto

lemma StopJob_reject:
  assumes "read_ok env" and "lookup_job (store m) j = Some old"
    and "(Status old, JobStatusCompleted) \<notin> allowed_transitions"
  shows "StopJob env m j = (Inl (CannotStopInStatus (Status old)), m)"
proof -
  from assms(1,2) have g: "store_GetJob (read_ok env) (store m) j = Inr old"
    by (simp add: store_GetJob_Inr)
  from assms(3) have "Status old \<noteq> JobStatusRunning \<and> Status old \<noteq> JobStatusPaused"
    by (simp add: allowed_to_completed)
  with g show ?thesis unfolding StopJob_def by simp
qed

lemma validateJobConfig_frame:
  assumes "validateJobConfig parse job = (r, job')"
  shows "job_row job' = job_row job"
  using assms unfolding validateJobConfig_def Let_def job_row_def
  by (auto split: if_splits option.splits)

lemma job_row_fields:
  assumes "job_row a = job_row b"
  shows "JobID a = JobID b" "Status a = Status b" "JobName a = JobName b"
    "ConfigYAML a = ConfigYAML b" "CreatedAt a = CreatedAt b" "UpdatedAt a = UpdatedAt b"
proof -
  have "JobID (job_row a) = JobID (job_row b)" "Status (job_row a) = Status (job_row b)"
    "JobName (job_row a) = JobName (job_row b)" "ConfigYAML (job_row a) = ConfigYAML (job_row b)"
    "CreatedAt (job_row a) = CreatedAt (job_row b)" "UpdatedAt (job_row a) = UpdatedAt (job_row b)"
    using assms by simp_all
  then show "JobID a = JobID b" "Status a = Status b" "JobName a = JobName b"
    "ConfigYAML a = ConfigYAML b" "CreatedAt a = CreatedAt b" "UpdatedAt a = UpdatedAt b"
    by (simp_all add: job_row_def)
qed

lemma UpdateJob_ok:
  assumes "UpdateJob parse env m job = (Inr (), job', m')"
  shows "\<exists>old. lookup_job (store m) (JobID job) = Some old
          \<and> (Status job \<noteq> Status old \<longrightarrow> (Status old, Status job) \<in> allowed_transitions)
          \<and> Status job' = Status job \<and> JobID job' = JobID job
          \<and> store_UpdateJob True (db_now env) (store m) job' = Inr (store m')"
proof -
  from assms obtain old where g: "store_GetJob (read_ok env) (store m) (JobID job) = Inr old"
    unfolding UpdateJob_def by (auto split: sum.splits)
  then have l: "lookup_job (store m) (JobID job) = Some old" by (simp add: store_GetJob_Inr)
  from assms g have t: "Status job \<noteq> Status old \<longrightarrow> (Status old, Status job) \<in> allowed_transitions"
    unfolding UpdateJob_def
    by (auto simp: validateStateTransition_allowed[symmetric] split: option.splits if_splits)
  define job1 where "job1 = job\<lparr>UpdatedAt := now env\<rparr>"
  define v where "v = (if ConfigYAML job1 \<noteq> ConfigYAML old
                         then validateJobConfig parse job1 else (None, job1))"
  from assms g t have v: "v = (None, job')"
    and u: "store_UpdateJob (write_ok env) (db_now env) (store m) job' = Inr (store m')"
    unfolding UpdateJob_def Let_def v_def job1_def
    by (auto simp: validateStateTransition_allowed split: option.splits if_splits prod.splits sum.splits)
  from v have "job_row job' = job_row job1"
    unfolding v_def by (auto split: if_splits dest: validateJobConfig_frame)
  from job_row_fields(1,2)[OF this] have f: "Status job' = Status job" "JobID job' = JobID job"
    by (simp_all add: job1_def)
  from u have "store_UpdateJob True (db_now env) (store m) job' = Inr (store m')"
    by (auto simp: store_UpdateJob_def split: if_splits)
  with l t f show ?thesis by blast
qed

lemma UpdateJob_fail:
  assumes "UpdateJob parse env m job = (Inl e, job', m')"
  shows "m' = m"
  using assms unfolding UpdateJob_def Let_def
  by (auto split: sum.splits option.splits if_splits prod.splits)

lemma UpdateJob_reject:
  assumes "read_ok env" and "lookup_job (store m) (JobID job) = Some old"
    and "Status job \<noteq> Status old"
    and "(Status old, Status job) \<notin> allowed_transitions"
  shows "UpdateJob parse env m job =
     (Inl (if map_of validTransitions (Status old) = None
                then NoValidTransitionsFrom (Status old)
           else InvalidStateTransition (Status old) (Status job)), job, m)"
proof -
  from assms(1,2) have g: "store_GetJob (read_ok env) (store m) (JobID job) = Inr old"
    by (simp add: store_GetJob_Inr)
  from assms(4) obtain e where v: "validateStateTransition (Status old) (Status job) = Some e"
    using validateStateTransition_allowed[of "Status old" "Status job"]
    by (cases "validateStateTransition (Status old) (Status job)") auto
  then have "e = (if map_of validTransitions (Status old) = None
                then NoValidTransitionsFrom (Status old)
           else InvalidStateTransition (Status old) (Status job))"
    by (simp add: validateStateTransition_Some)
  with g v assms(3) show ?thesis unfolding UpdateJob_def by simp
qed


lemma CreateJob_changes:
  assumes "CreateJob parse env m job = (r, job', m')"
  shows "status_changes m m' = {}" and "r \<noteq> Inr () \<Longrightarrow> m' = m"
proof -
  show "r \<noteq> Inr () \<Longrightarrow> m' = m"
    using assms unfolding CreateJob_def Let_def
    by (auto split: sum.splits option.splits prod.splits)
  show "status_changes m m' = {}"
  proof (cases "store m' = store m")
    case True
    then show ?thesis by (rule status_changes_same)
  next
    case False
    with assms obtain job4 where sv: "store_SaveJob (write_ok env) (store m) job4 = Inr (store m')"
      unfolding CreateJob_def Let_def
      by (auto split: sum.splits option.splits prod.splits)
    show ?thesis unfolding status_changes_def
      using lookup_job_SaveJob[OF sv] by (auto split: if_splits)
  qed
qed

lemma DeleteJob_changes:
  assumes "DeleteJob env m j = (r, m')"
  shows "status_changes m m' = {}" and "r \<noteq> Inr () \<Longrightarrow> m' = m"
proof -
  show "r \<noteq> Inr () \<Longrightarrow> m' = m"
    using assms unfolding DeleteJob_def
    by (auto split: sum.splits if_splits)
  show "status_changes m m' = {}"
  proof (cases "store m' = store m")
    case True
    then show ?thesis by (rule status_changes_same)
  next
    case False
    with assms have sv: "store_DeleteJob (write_ok env) (store m) j = Inr (store m')"
      unfolding DeleteJob_def
      by (auto split: sum.splits if_splits)
    show ?thesis unfolding status_changes_def
      using lookup_job_DeleteJob[OF sv] by (auto split: if_splits)
  qed
qed

lemma GetJob_store:
  assumes "GetJob env m j = (r, m')"
  shows "store m' = store m"
  using assms unfolding GetJob_def
  by (auto split: sum.splits option.splits)

lemma status_changes_move:
  assumes "lookup_job (store m) j = Some old"
    and "(Status old, target) \<in> allowed_transitions"
    and "store_UpdateJob True t (store m) (old\<lparr>Status := target, UpdatedAt := n\<rparr>) = Inr (store m')"
  shows "status_changes m m' \<subseteq> allowed_transitions"
proof -
  from assms(1) have "JobID old = j" by (rule lookup_job_id)
  with assms(1) have "lookup_job (store m) (JobID (old\<lparr>Status := target, UpdatedAt := n\<rparr>)) = Some old"
    by simp
  from status_changes_update[OF assms(3) this] assms(2) show ?thesis by auto
qed

lemma sum_unit_cases: "(r :: jm_error + unit) = Inr () \<or> (\<exists>e. r = Inl e)"
  by (cases r) auto

lemma jm_apply_changes:
  assumes "jm_apply parse env m c = (r, m')"
  shows "status_changes m m' \<subseteq> allowed_transitions \<and> (r \<noteq> Inr () \<longrightarrow> store m' = store m)"
proof (cases c)
  case (CallCreate job)
  with assms obtain job' where "CreateJob parse env m job = (r, job', m')"
    by (auto split: prod.splits)
  from CreateJob_changes[OF this] show ?thesis by auto
next
  case (CallGet j)
  with assms obtain r0 where "GetJob env m j = (r0, m')" by (auto split: prod.splits)
  from GetJob_store[OF this] show ?thesis by (simp add: status_changes_same)
next
  case (CallUpdate job)
  with assms obtain job' where u: "UpdateJob parse env m job = (r, job', m')"
    by (auto split: prod.splits)
  show ?thesis
  proof (cases r)
    case (Inl e)
    with u have "m' = m" by (auto dest: UpdateJob_fail)
    then show ?thesis by (simp add: status_changes_same)
  next
    case (Inr x)
    with u have "UpdateJob parse env m job = (Inr (), job', m')" by simp
    from UpdateJob_ok[OF this] obtain old where
      l: "lookup_job (store m) (JobID job) = Some old"
      and t: "Status job \<noteq> Status old \<longrightarrow> (Status old, Status job) \<in> allowed_transitions"
      and f: "Status job' = Status job" "JobID job' = JobID job"
      and st: "store_UpdateJob True (db_now env) (store m) job' = Inr (store m')" by blast
    from l f have "lookup_job (store m) (JobID job') = Some old" by simp
    from status_changes_update[OF st this] f
    have sub: "status_changes m m' \<subseteq> {(Status old, Status job)}" by simp
    have "status_changes m m' \<subseteq> allowed_transitions"
    proof
      fix x assume x: "x \<in> status_changes m m'"
      with sub have e: "x = (Status old, Status job)" by auto
      from x have "fst x \<noteq> snd x" by (auto simp: status_changes_def)
      with e t show "x \<in> allowed_transitions" by auto
    qed
    with Inr show ?thesis by simp
  qed
next
  case (CallDelete j)
  with assms have "DeleteJob env m j = (r, m')" by simp
  from DeleteJob_changes[OF this] show ?thesis by auto
next
  case (CallStart j)
  with assms have u: "StartJob env m j = (r, m')" by simp
  show ?thesis
  proof (cases r)
    case (Inl e)
    with u have "m' = m" by (auto dest: StartJob_fail)
    then show ?thesis by (simp add: status_changes_same)
  next
    case (Inr x)
    with u have "StartJob env m j = (Inr (), m')" by simp
    from StartJob_ok[OF this] Inr show ?thesis by (auto dest: status_changes_move)
  qed
next
  case (CallStop j)
  with assms have u: "StopJob env m j = (r, m')" by simp
  show ?thesis
  proof (cases r)
    case (Inl e)
    with u have "store m' = store m" by (auto dest: StopJob_fail)
    then show ?thesis by (simp add: status_changes_same)
  next
    case (Inr x)
    with u have "StopJob env m j = (Inr (), m')" by simp
    from StopJob_ok[OF this] Inr show ?thesis by (auto dest: status_changes_move)
  qed
next
  case (CallPause j)
  with assms have u: "PauseJob env m j = (r, m')" by simp
  show ?thesis
  proof (cases r)
    case (Inl e)
    with u have "m' = m" by (auto dest: PauseJob_fail)
    then show ?thesis by (simp add: status_changes_same)
  next
    case (Inr x)
    with u have "PauseJob env m j = (Inr (), m')" by simp
    from PauseJob_ok[OF this] Inr show ?thesis by (auto dest: status_changes_move)
  qed
next
  case (CallResume j)
  with assms have u: "ResumeJob env m j = (r, m')" by simp
  show ?thesis
  proof (cases r)
    case (Inl e)
    with u have "m' = m" by (auto dest: ResumeJob_fail)
    then show ?thesis by (simp add: status_changes_same)
  next
    case (Inr x)
    with u have "ResumeJob env m j = (Inr (), m')" by simp
    from ResumeJob_ok[OF this] Inr show ?thesis by (auto dest: status_changes_move)
  qed
qed

lemma jm_apply_reject:
  assumes "jm_apply parse env m c = (r, m')"
    and "read_ok env"
    and "requested_transition m c = Some (from, to)"
    and "(from, to) \<notin> allowed_transitions"
  shows "m' = m \<and>
     r \<in> {Inl (InvalidStateTransition from to), Inl (NoValidTransitionsFrom from),
          Inl (CannotStartFromStatus from), Inl (CannotStopInStatus from)}"
proof (cases c)
  case (CallUpdate job)
  with assms(3) obtain old where l: "lookup_job (store m) (JobID job) = Some old"
    and d: "Status job \<noteq> Status old" and ft: "from = Status old" "to = Status job"
    by (auto split: option.splits if_splits)
  from UpdateJob_reject[OF assms(2) l d, of parse] assms(1,4) CallUpdate ft
  show ?thesis by (auto split: if_splits)
next
  case (CallStart j)
  with assms(3) obtain old where l: "lookup_job (store m) j = Some old"
    and ft: "from = Status old" "to = JobStatusRunning" by auto
  from StartJob_reject[OF assms(2) l] assms(1,4) CallStart ft
  show ?thesis by (auto split: if_splits)
next
  case (CallStop j)
  with assms(3) obtain old where l: "lookup_job (store m) j = Some old"
    and ft: "from = Status old" "to = JobStatusCompleted" by auto
  from StopJob_reject[OF assms(2) l] assms(1,4) CallStop ft
  show ?thesis by (auto split: if_splits)
next
  case (CallPause j)
  with assms(3) obtain old where l: "lookup_job (store m) j = Some old"
    and ft: "from = Status old" "to = JobStatusPaused" by auto
  from PauseJob_reject[OF assms(2) l] assms(1,4) CallPause ft
  show ?thesis by (auto split: if_splits)
next
  case (CallResume j)
  with assms(3) obtain old where l: "lookup_job (store m) j = Some old"
    and ft: "from = Status old" "to = JobStatusRunning" by auto
  from ResumeJob_reject[OF assms(2) l] assms(1,4) CallResume ft
  show ?thesis by (auto split: if_splits)
qed (use assms(3) in simp_all)

lemma jm_run_event:
  "(m0, env, c, r, m1) \<in> set (jm_run parse m cs) \<Longrightarrow> jm_apply parse env m0 c = (r, m1)"
  by (induction cs arbitrary: m) (auto split: prod.splits)


text \<open>
  C3. Over any history of calls on a manager: every change of a job's persisted status made
  by a call is a pair of the allowed-transitions table, and only a call that returns success
  changes the store; a call that asks for a pair outside the table (an update that changes the
  status, start, stop, pause, resume) leaves the manager as it was and returns the error of
  \<open>validateStateTransition\<close> or of the guard of start or stop; start on a draft job fails with
  the invalid-transition error.
\<close>

theorem job_transitions_in_table:
  assumes "(m0, env, c, r, m1) \<in> set (jm_run parse m cs)"
  shows "status_changes m0 m1 \<subseteq> allowed_transitions
    \<and> (r \<noteq> Inr () \<longrightarrow> store m1 = store m0)
    \<and> (\<forall>from to. read_ok env \<and> requested_transition m0 c = Some (from, to)
          \<and> (from, to) \<notin> allowed_transitions
        \<longrightarrow> m1 = m0 \<and>
            r \<in> {Inl (InvalidStateTransition from to), Inl (NoValidTransitionsFrom from),
                 Inl (CannotStartFromStatus from), Inl (CannotStopInStatus from)})
    \<and> (\<forall>j row. c = CallStart j \<and> read_ok env \<and> lookup_job (store m0) j = Some row
          \<and> Status row = JobStatusDraft
        \<longrightarrow> m1 = m0 \<and> r = Inl (InvalidStateTransition JobStatusDraft JobStatusRunning))"
proof -
  from assms have ap: "jm_apply parse env m0 c = (r, m1)" by (rule jm_run_event)
  have draft: "m1 = m0 \<and> r = Inl (InvalidStateTransition JobStatusDraft JobStatusRunning)"
    if c: "c = CallStart j" and ok: "read_ok env" and l: "lookup_job (store m0) j = Some row"
      and d: "Status row = JobStatusDraft" for j row
  proof -
    have n: "(Status row, JobStatusRunning) \<notin> allowed_transitions"
      and k: "map_of validTransitions (Status row) \<noteq> None"
      and ne: "Status row \<noteq> JobStatusRunning"
      unfolding d allowed_transitions_def validTransitions_def
        JobStatusDraft_def JobStatusReady_def JobStatusRunning_def JobStatusPaused_def
        JobStatusCompleted_def JobStatusFailed_def
      by simp_all
    from StartJob_reject[OF ok l n] ap c k ne d show ?thesis by auto
  qed
  from jm_apply_changes[OF ap] jm_apply_reject[OF ap] draft show ?thesis by blast
qed

theorem job_transitions_in_table_witness:
  "map (\<lambda>ev. (fst (snd (snd (snd ev))), map Status (store (snd (snd (snd (snd ev)))))))
       (jm_run demo_parse (NewManager []) demo_calls)
     = [(Inr (), [''draft'']),
        (Inl (InvalidStateTransition ''draft'' ''running''), [''draft'']),
        (Inr (), [''ready'']),
        (Inr (), [''running''])]
   \<and> status_changes (fst (jm_run demo_parse (NewManager []) demo_calls ! 3))
        (snd (snd (snd (snd (jm_run demo_parse (NewManager []) demo_calls ! 3)))))
      \<subseteq> allowed_transitions"
proof -
  let ?evs = "jm_run demo_parse (NewManager []) demo_calls"
  have res: "map (\<lambda>ev. (fst (snd (snd (snd ev))), map Status (store (snd (snd (snd (snd ev)))))))
       ?evs
     = [(Inr (), [''draft'']),
        (Inl (InvalidStateTransition ''draft'' ''running''), [''draft'']),
        (Inr (), [''ready'']),
        (Inr (), [''running''])]"
    by (simp add: demo_calls_def demo_env_def demo_job_def demo_parse_def NewManager_def
        CreateJob_def StartJob_def UpdateJob_def validateJobConfig_def
        validateStateTransition_def validTransitions_def
        store_SaveJob_def store_GetJob_def store_UpdateJob_def lookup_job_def
        updated_row_def job_row_def cache_refresh_def Let_def
        JobStatusDraft_def JobStatusReady_def JobStatusRunning_def JobStatusPaused_def
        JobStatusCompleted_def JobStatusFailed_def)
  from arg_cong[where f = length, OF res] have "length ?evs = 4" by simp
  then have "?evs ! 3 \<in> set ?evs" by simp
  then have "(fst (?evs ! 3), fst (snd (?evs ! 3)), fst (snd (snd (?evs ! 3))),
      fst (snd (snd (snd (?evs ! 3)))), snd (snd (snd (snd (?evs ! 3))))) \<in> set ?evs"
    by simp
  from job_transitions_in_table[OF this] res show ?thesis by blast
qed


lemma validateJobConfig_error_cong:
  "JobName a = JobName b \<Longrightarrow> ConfigYAML a = ConfigYAML b \<Longrightarrow>
     fst (validateJobConfig parse a) = fst (validateJobConfig parse b)"
  unfolding validateJobConfig_def Let_def by (auto split: option.splits)

text \<open>
  C8 (as amended). \<open>CreateJob\<close> gives the job an id only when it has none and the status
  draft only when it has none, and stamps both timestamps with the current time. With a valid
  configuration, and when the store accepts the insert, it returns success with the job
  persisted and cached; when the store refuses, it returns the save error and changes nothing.
  With an invalid configuration it returns the configuration error and changes nothing.
\<close>

theorem create_job_effect:
  assumes "CreateJob parse env m job = (r, job', m')"
  shows "JobID job' = (if JobID job = [] then new_uuid env else JobID job)
    \<and> Status job' = (if Status job = [] then JobStatusDraft else Status job)
    \<and> CreatedAt job' = now env \<and> UpdatedAt job' = now env
    \<and> (case fst (validateJobConfig parse job) of
          Some e \<Rightarrow> r = Inl (InvalidJobConfiguration e) \<and> m' = m
        | None \<Rightarrow>
            if write_ok env \<and> lookup_job (store m) (JobID job') = None
            then r = Inr ()
              \<and> store m' = store m @ [job_row job']
              \<and> lookup_job (store m') (JobID job') = Some (job_row job')
              \<and> jobs m' = (jobs m)(JobID job' \<mapsto>
                   \<lparr>InstJob = job', InstStatus = Status job', InstUpdatedAt = now env,
                    InstCtx = False\<rparr>)
              \<and> running m' = running m
            else r = Inl (FailedToSaveJob DBFault) \<and> m' = m)"
proof -
  define job3 where "job3 =
    (if Status (if JobID job = [] then job\<lparr>JobID := new_uuid env\<rparr> else job) = []
     then (if JobID job = [] then job\<lparr>JobID := new_uuid env\<rparr> else job)\<lparr>Status := JobStatusDraft\<rparr>
     else (if JobID job = [] then job\<lparr>JobID := new_uuid env\<rparr> else job))
    \<lparr>CreatedAt := now env, UpdatedAt := now env\<rparr>"
  have j3: "JobID job3 = (if JobID job = [] then new_uuid env else JobID job)"
    "Status job3 = (if Status job = [] then JobStatusDraft else Status job)"
    "CreatedAt job3 = now env" "UpdatedAt job3 = now env"
    "JobName job3 = JobName job" "ConfigYAML job3 = ConfigYAML job"
    by (simp_all add: job3_def)
  obtain v job4 where v: "validateJobConfig parse job3 = (v, job4)" by (cases "validateJobConfig parse job3")
  from validateJobConfig_frame[OF v] have fr: "job_row job4 = job_row job3" .
  from v validateJobConfig_error_cong[OF j3(5,6), of parse]
  have ve: "fst (validateJobConfig parse job) = v" by simp
  from assms v have c: "(case v of
           Some e \<Rightarrow> (Inl (InvalidJobConfiguration e), job4, m)
         | None \<Rightarrow>
             (case store_SaveJob (write_ok env) (store m) job4 of
                Inl e \<Rightarrow> (Inl (FailedToSaveJob e), job4, m)
              | Inr st \<Rightarrow>
                  (Inr (), job4,
                   m\<lparr>store := st,
                     jobs := (jobs m)(JobID job4 \<mapsto>
                       \<lparr>InstJob = job4, InstStatus = Status job4, InstUpdatedAt = now env,
                        InstCtx = False\<rparr>)\<rparr>))) = (r, job', m')"
    unfolding CreateJob_def Let_def job3_def by simp
  then have jj: "job' = job4" by (auto split: option.splits sum.splits)
  from job_row_fields[OF fr] j3 jj
  have fields: "JobID job' = (if JobID job = [] then new_uuid env else JobID job)"
    "Status job' = (if Status job = [] then JobStatusDraft else Status job)"
    "CreatedAt job' = now env" "UpdatedAt job' = now env"
    by simp_all
  have rest: "(case fst (validateJobConfig parse job) of
          Some e \<Rightarrow> r = Inl (InvalidJobConfiguration e) \<and> m' = m
        | None \<Rightarrow>
            if write_ok env \<and> lookup_job (store m) (JobID job') = None
            then r = Inr ()
              \<and> store m' = store m @ [job_row job']
              \<and> lookup_job (store m') (JobID job') = Some (job_row job')
              \<and> jobs m' = (jobs m)(JobID job' \<mapsto>
                   \<lparr>InstJob = job', InstStatus = Status job', InstUpdatedAt = now env,
                    InstCtx = False\<rparr>)
              \<and> running m' = running m
            else r = Inl (FailedToSaveJob DBFault) \<and> m' = m)"
  proof (cases v)
    case (Some e)
    with c ve show ?thesis by simp
  next
    case None
    show ?thesis
    proof (cases "write_ok env \<and> lookup_job (store m) (JobID job') = None")
      case True
      then have sv: "store_SaveJob (write_ok env) (store m) job4 = Inr (store m @ [job_row job4])"
        by (simp add: store_SaveJob_def jj)
      from lookup_job_SaveJob(2)[OF sv, of "JobID job4"]
      have "lookup_job (store m @ [job_row job4]) (JobID job4) = Some (job_row job4)" by simp
      with c None sv ve True jj show ?thesis by auto
    next
      case False
      then have "store_SaveJob (write_ok env) (store m) job4 = Inl DBFault"
        by (auto simp: store_SaveJob_def jj split: option.splits)
      with c None ve False show ?thesis by auto
    qed
  qed
  from fields rest show ?thesis by simp
qed

theorem create_job_effect_witness:
  "fst (CreateJob demo_parse demo_env (NewManager []) (demo_job\<lparr>JobID := []\<rparr>)) = Inr ()
   \<and> JobID (fst (snd (CreateJob demo_parse demo_env (NewManager []) (demo_job\<lparr>JobID := []\<rparr>)))) = ''u1''
   \<and> Status (fst (snd (CreateJob demo_parse demo_env (NewManager []) (demo_job\<lparr>JobID := []\<rparr>)))) = ''draft''
   \<and> map JobID (store (snd (snd (CreateJob demo_parse demo_env (NewManager []) (demo_job\<lparr>JobID := []\<rparr>))))) = [''u1'']"
proof -
  obtain r job' m' where c: "CreateJob demo_parse demo_env (NewManager []) (demo_job\<lparr>JobID := []\<rparr>) = (r, job', m')"
    by (cases "CreateJob demo_parse demo_env (NewManager []) (demo_job\<lparr>JobID := []\<rparr>)")
  have v: "fst (validateJobConfig demo_parse (demo_job\<lparr>JobID := []\<rparr>)) = None"
    by (simp add: validateJobConfig_def demo_parse_def demo_job_def)
  from create_job_effect[OF c] v show ?thesis
    unfolding c
    by (simp add: demo_env_def demo_job_def NewManager_def lookup_job_def JobStatusDraft_def
        job_row_def)
qed

theorem create_job_status_counterexample:
  "fst (CreateJob demo_parse demo_env (NewManager []) (demo_job\<lparr>Status := JobStatusReady\<rparr>)) = Inr ()
   \<and> Status (fst (snd (CreateJob demo_parse demo_env (NewManager [])
        (demo_job\<lparr>Status := JobStatusReady\<rparr>)))) = JobStatusReady
   \<and> map Status (store (snd (snd (CreateJob demo_parse demo_env (NewManager [])
        (demo_job\<lparr>Status := JobStatusReady\<rparr>))))) = [JobStatusReady]
   \<and> JobStatusReady \<noteq> JobStatusDraft"
  by (simp add: CreateJob_def validateJobConfig_def store_SaveJob_def lookup_job_def job_row_def
      demo_parse_def demo_env_def demo_job_def NewManager_def Let_def
      JobStatusReady_def JobStatusDraft_def)

section \<open>Worker pool\<close>

lemma lookup_worker_heartbeat:
  "lookup_worker (map (\<lambda>w. if WorkerID w = k
       then w\<lparr>LastHeartbeat := t, WStatus := WorkerStatusOnline\<rparr> else w) rows) j =
     (if j = k then map_option (\<lambda>w. w\<lparr>LastHeartbeat := t, WStatus := WorkerStatusOnline\<rparr>)
                      (lookup_worker rows j)
      else lookup_worker rows j)"
  unfolding lookup_worker_def by (induction rows) auto

text \<open>
  C9 (as amended). For a worker in the cache, or absent from it and read from storage (which
  caches it first), the heartbeat sets the cached last-heartbeat to the current time and leaves
  the cached status as it was; when the storage update succeeds the call succeeds and the
  worker's row has last-heartbeat now and status online, and when it fails the call returns
  that error with the cache already updated. A worker in neither is not-found and nothing
  changes. An offline cached worker becomes online at the next health check within the timeout.
\<close>

theorem heartbeat_effect:
  assumes "UpdateHeartbeat env p workerID = (r, p')"
  shows "(case (case workers p workerID of
                 Some w \<Rightarrow> Some w
               | None \<Rightarrow> if read_ok env then lookup_worker (pool_store p) workerID else None) of
           None \<Rightarrow> r = Inl (WorkerNotFound workerID) \<and> p' = p
         | Some w \<Rightarrow>
             workers p' workerID = Some (w\<lparr>LastHeartbeat := now env\<rparr>)
             \<and> (\<forall>other. other \<noteq> workerID \<longrightarrow> workers p' other = workers p other)
             \<and> (if write_ok env
                 then r = Inr ()
                   \<and> lookup_worker (pool_store p') workerID =
                       map_option (\<lambda>row. row\<lparr>LastHeartbeat := db_now env, WStatus := WorkerStatusOnline\<rparr>)
                         (lookup_worker (pool_store p) workerID)
                 else r = Inl (FailedToUpdateHeartbeat DBFault) \<and> pool_store p' = pool_store p)
             \<and> (\<forall>t. t - now env \<le> heartbeatTimeout p' \<and> WStatus w = WorkerStatusOffline \<longrightarrow>
                   map_option WStatus (workers (checkWorkerHealth t p') workerID)
                     = Some WorkerStatusOnline))"
proof -
  have health: "map_option WStatus (workers (checkWorkerHealth t q) workerID) = Some WorkerStatusOnline"
    if "workers q workerID = Some (w\<lparr>LastHeartbeat := now env\<rparr>)"
      and "t - now env \<le> heartbeatTimeout q" and "WStatus w = WorkerStatusOffline"
    for t q and w :: Worker
    using that by (simp add: checkWorkerHealth_def checkWorker_def)
  show ?thesis
  proof (cases "case workers p workerID of
                 Some w \<Rightarrow> Some w
               | None \<Rightarrow> if read_ok env then lookup_worker (pool_store p) workerID else None")
    case None
    with assms show ?thesis
      unfolding UpdateHeartbeat_def store_GetWorker_def
      by (auto split: option.splits if_splits)
  next
    case (Some w)
    define p1 where "p1 = (case workers p workerID of Some _ \<Rightarrow> p
        | None \<Rightarrow> p\<lparr>workers := (workers p)(workerID \<mapsto> w)\<rparr>)"
    define p2 where "p2 = p1\<lparr>workers := (workers p1)(workerID \<mapsto> w\<lparr>LastHeartbeat := now env\<rparr>)\<rparr>"
    from Some have load: "(case workers p workerID of
              Some worker \<Rightarrow> Inr (worker, p)
            | None \<Rightarrow>
                (case store_GetWorker (read_ok env) (pool_store p) workerID of
                   Inl e \<Rightarrow> Inl (WorkerNotFound workerID)
                 | Inr dbWorker \<Rightarrow>
                     Inr (dbWorker, p\<lparr>workers := (workers p)(workerID \<mapsto> dbWorker)\<rparr>))) = Inr (w, p1)"
      unfolding p1_def store_GetWorker_def by (auto split: option.splits if_splits)
    have st2: "pool_store p2 = pool_store p" "heartbeatTimeout p2 = heartbeatTimeout p"
      and w2: "workers p2 workerID = Some (w\<lparr>LastHeartbeat := now env\<rparr>)"
      and o2: "\<And>other. other \<noteq> workerID \<Longrightarrow> workers p2 other = workers p other"
      unfolding p2_def p1_def by (auto split: option.splits)
    from assms load have res: "(case store_UpdateWorkerHeartbeat (write_ok env) (db_now env) (pool_store p2) workerID of
                Inl e \<Rightarrow> (Inl (FailedToUpdateHeartbeat e), p2)
              | Inr st \<Rightarrow> (Inr (), p2\<lparr>pool_store := st\<rparr>)) = (r, p')"
      unfolding UpdateHeartbeat_def Let_def p2_def by simp
    show ?thesis
    proof (cases "write_ok env")
      case True
      with res st2 have r: "r = Inr ()" and p': "p' = p2\<lparr>pool_store :=
          map (\<lambda>w. if WorkerID w = workerID
                    then w\<lparr>LastHeartbeat := db_now env, WStatus := WorkerStatusOnline\<rparr>
                    else w) (pool_store p)\<rparr>"
        by (auto simp: store_UpdateWorkerHeartbeat_def)
      from p' w2 o2 st2 have a: "workers p' workerID = Some (w\<lparr>LastHeartbeat := now env\<rparr>)"
        "\<forall>other. other \<noteq> workerID \<longrightarrow> workers p' other = workers p other"
        "heartbeatTimeout p' = heartbeatTimeout p"
        "lookup_worker (pool_store p') workerID =
           map_option (\<lambda>row. row\<lparr>LastHeartbeat := db_now env, WStatus := WorkerStatusOnline\<rparr>)
             (lookup_worker (pool_store p) workerID)"
        by (simp_all add: lookup_worker_heartbeat)
      with health[of p' w] Some True r show ?thesis by simp
    next
      case False
      with res have r: "r = Inl (FailedToUpdateHeartbeat DBFault)" and p': "p' = p2"
        by (auto simp: store_UpdateWorkerHeartbeat_def)
      with health[of p' w] w2 o2 st2 Some False show ?thesis by simp
    qed
  qed
qed

theorem heartbeat_effect_witness:
  "fst (UpdateHeartbeat demo_env demo_pool ''w1'') = Inr ()
   \<and> map_option LastHeartbeat (workers (snd (UpdateHeartbeat demo_env demo_pool ''w1'')) ''w1'') = Some 100
   \<and> map_option WStatus
        (lookup_worker (pool_store (snd (UpdateHeartbeat demo_env demo_pool ''w1''))) ''w1'')
       = Some ''online''
   \<and> map_option WStatus (workers (snd (UpdateHeartbeat demo_env demo_pool ''w1'')) ''w1'')
       = Some ''offline''
   \<and> map_option WStatus
        (workers (checkWorkerHealth 130 (snd (UpdateHeartbeat demo_env demo_pool ''w1''))) ''w1'')
       = Some ''online''"
proof -
  obtain r p' where u: "UpdateHeartbeat demo_env demo_pool ''w1'' = (r, p')"
    by (cases "UpdateHeartbeat demo_env demo_pool ''w1''")
  have t: "heartbeatTimeout p' = 90" using u
    by (auto simp: UpdateHeartbeat_def Let_def demo_pool_def store_UpdateWorkerHeartbeat_def
        demo_env_def split: sum.splits)
  from heartbeat_effect[OF u] t show ?thesis
    unfolding u
    by (simp add: demo_pool_def demo_env_def demo_worker_def lookup_worker_def
        WorkerStatusOnline_def WorkerStatusOffline_def)
qed

theorem heartbeat_status_counterexample:
  "fst (UpdateHeartbeat demo_env demo_pool ''w1'') = Inr ()
   \<and> map_option WStatus (workers demo_pool ''w1'') = Some WorkerStatusOffline
   \<and> map_option WStatus (workers (snd (UpdateHeartbeat demo_env demo_pool ''w1'')) ''w1'')
       = Some WorkerStatusOffline
   \<and> WorkerStatusOffline \<noteq> WorkerStatusOnline"
  by (simp add: UpdateHeartbeat_def Let_def demo_pool_def demo_env_def demo_worker_def
      store_UpdateWorkerHeartbeat_def WorkerStatusOnline_def WorkerStatusOffline_def)

section \<open>Checkpoint manager\<close>

lemma SaveCheckpoint_frame:
  assumes "SaveCheckpoint t ok (h, m) stage a = (r, h', m')"
  shows "enabled m' = enabled m"
    and "\<And>s. s \<noteq> stage \<Longrightarrow> checkpoints m' s = checkpoints m s"
    and "\<And>b c. h b = Some c \<Longrightarrow>
           \<exists>c'. h' b = Some c' \<and> Position c' = Position c \<and> Metadata c' = Metadata c"
  using assms unfolding SaveCheckpoint_def Let_def
  by (auto split: if_splits option.splits)

lemma saveAll_other_stages:
  assumes "saveAll calls (h, m) = (h', m')"
    and "\<forall>call \<in> set calls. fst (snd (snd call)) \<noteq> stage"
    and "h a = Some c"
  shows "enabled m' = enabled m \<and> checkpoints m' stage = checkpoints m stage
     \<and> (\<exists>c'. h' a = Some c' \<and> Position c' = Position c \<and> Metadata c' = Metadata c)"
  using assms
proof (induction calls arbitrary: h m c)
  case Nil
  then show ?case by simp
next
  case (Cons call calls)
  obtain t ok s b where call: "call = (t, ok, s, b)" by (cases call) auto
  obtain r h1 m1 where sv: "SaveCheckpoint t ok (h, m) s b = (r, h1, m1)"
    by (cases "SaveCheckpoint t ok (h, m) s b") auto
  from Cons.prems(2) call have ne: "stage \<noteq> s" by auto
  from SaveCheckpoint_frame[OF sv] ne Cons.prems(3)
  obtain c1 where f: "enabled m1 = enabled m" "checkpoints m1 stage = checkpoints m stage"
    "h1 a = Some c1" "Position c1 = Position c" "Metadata c1 = Metadata c" by metis
  from Cons.prems(1) call sv have "saveAll calls (h1, m1) = (h', m')" by simp
  from Cons.IH[OF this _ f(3)] Cons.prems(2) f show ?case by auto
qed

text \<open>
  C7. With the manager enabled, after \<open>save(s, c)\<close> and any further saves under other stage
  names (of any objects, this one included, whether or not their writes succeed), \<open>load(s)\<close>
  returns the saved object with the position and metadata of \<open>c\<close>; right after the save its
  timestamp is the time of the save.
\<close>

theorem save_then_load:
  assumes "enabled m" and "h a = Some c"
    and "SaveCheckpoint t ok (h, m) s a = (r, h1, m1)"
    and "\<forall>call \<in> set calls. fst (snd (snd call)) \<noteq> s"
    and "saveAll calls (h1, m1) = (h2, m2)"
  shows "LoadCheckpoint m2 s = Some a
    \<and> (\<exists>c2. h2 a = Some c2 \<and> Position c2 = Position c \<and> Metadata c2 = Metadata c)
    \<and> h1 a = Some (c\<lparr>Timestamp := t\<rparr>)
    \<and> (ok \<longrightarrow> r = Inr () \<and> files m1 (cp_jobID m, s) = Some (c\<lparr>Timestamp := t\<rparr>))"
proof -
  from assms(1-3) have 1: "enabled m1" "checkpoints m1 s = Some a" "h1 a = Some (c\<lparr>Timestamp := t\<rparr>)"
    and 2: "ok \<longrightarrow> r = Inr () \<and> files m1 (cp_jobID m, s) = Some (c\<lparr>Timestamp := t\<rparr>)"
    unfolding SaveCheckpoint_def Let_def by (auto split: if_splits)
  from saveAll_other_stages[OF assms(5,4) 1(3)] 1
  have "enabled m2" "checkpoints m2 s = Some a"
    "\<exists>c2. h2 a = Some c2 \<and> Position c2 = Position c \<and> Metadata c2 = Metadata c"
    by auto
  with 1 2 show ?thesis by (simp add: LoadCheckpoint_def)
qed

theorem save_then_load_witness:
  "LoadCheckpoint (snd (saveAll [(7, True, ''output'', 2), (8, False, ''processor1'', 1)]
       (snd (SaveCheckpoint 5 True (demo_heap, demo_cp_manager) ''input'' 1)))) ''input'' = Some 1
   \<and> map_option Position (fst (saveAll [(7, True, ''output'', 2), (8, False, ''processor1'', 1)]
       (snd (SaveCheckpoint 5 True (demo_heap, demo_cp_manager) ''input'' 1))) 1)
      = Some (AnyString ''12345'')"
proof -
  let ?s1 = "SaveCheckpoint 5 True (demo_heap, demo_cp_manager) ''input'' 1"
  let ?calls = "[(7, True, ''output'', 2), (8, False, ''processor1'', 1)] :: (time \<times> bool \<times> string \<times> addr) list"
  have e: "enabled demo_cp_manager" by (simp add: demo_cp_manager_def)
  have a: "demo_heap 1 = Some demo_checkpoint" by (simp add: demo_heap_def)
  have s: "?s1 = (fst ?s1, fst (snd ?s1), snd (snd ?s1))" by simp
  have o: "\<forall>call \<in> set ?calls. fst (snd (snd call)) \<noteq> ''input''" by simp
  have f: "saveAll ?calls (fst (snd ?s1), snd (snd ?s1))
      = (fst (saveAll ?calls (snd ?s1)), snd (saveAll ?calls (snd ?s1)))" by simp
  from save_then_load[OF e a s o f] show ?thesis
    by (auto simp: demo_checkpoint_def)
qed

text \<open>
  C10 (as amended). On an enabled manager \<open>save\<close> overwrites the timestamp of the caller's
  object in place and changes nothing else in it or in any other object; the manager's map
  holds the caller's pointer itself, which \<open>load\<close> and \<open>list\<close> return, so whatever the caller
  later writes into the object is what a reader gets through the loaded pointer. On a disabled
  manager \<open>save\<close> returns nil and leaves the object, the store and the manager as they were,
  and \<open>load\<close> returns nothing.
\<close>

theorem save_aliases_caller_object:
  assumes "h a = Some c"
    and "SaveCheckpoint t ok (h, m) s a = (r, h1, m1)"
  shows "(enabled m \<longrightarrow>
        h1 = h(a \<mapsto> c\<lparr>Timestamp := t\<rparr>)
      \<and> Position (c\<lparr>Timestamp := t\<rparr>) = Position c \<and> Metadata (c\<lparr>Timestamp := t\<rparr>) = Metadata c
      \<and> LoadCheckpoint m1 s = Some a
      \<and> GetAllCheckpoints m1 s = Some a
      \<and> (\<forall>later. (case LoadCheckpoint m1 s of None \<Rightarrow> None | Some p \<Rightarrow> (h1(a \<mapsto> later)) p)
                    = Some later))
    \<and> (\<not> enabled m \<longrightarrow>
        r = Inr () \<and> h1 = h \<and> m1 = m \<and> LoadCheckpoint m1 s = None
      \<and> GetAllCheckpoints m1 s = checkpoints m s)"
  using assms unfolding SaveCheckpoint_def Let_def LoadCheckpoint_def GetAllCheckpoints_def
  by (auto split: if_splits)

theorem save_aliases_caller_object_witness:
  "fst (snd (SaveCheckpoint 5 True (demo_heap, demo_cp_manager) ''input'' 1)) 1
      = Some (demo_checkpoint\<lparr>Timestamp := 5\<rparr>)
   \<and> LoadCheckpoint (snd (snd (SaveCheckpoint 5 True (demo_heap, demo_cp_manager) ''input'' 1))) ''input''
      = Some 1
   \<and> ((fst (snd (SaveCheckpoint 5 True (demo_heap, demo_cp_manager) ''input'' 1)))
          (1 \<mapsto> demo_checkpoint\<lparr>Position := AnyInt 99\<rparr>)) 1
      = Some (demo_checkpoint\<lparr>Position := AnyInt 99\<rparr>)"
proof -
  let ?s1 = "SaveCheckpoint 5 True (demo_heap, demo_cp_manager) ''input'' 1"
  have e: "enabled demo_cp_manager" by (simp add: demo_cp_manager_def)
  have a: "demo_heap 1 = Some demo_checkpoint" by (simp add: demo_heap_def)
  have s: "?s1 = (fst ?s1, fst (snd ?s1), snd (snd ?s1))" by simp
  from save_aliases_caller_object[OF a s] e show ?thesis by simp
qed

text \<open>
  A disabled manager: the save at time 5 returns nil, the caller's object keeps its timestamp
  0, and neither \<open>load\<close> nor \<open>list\<close> gives the object.
\<close>

theorem save_disabled_counterexample:
  "SaveCheckpoint 5 True (demo_heap, demo_cp_manager\<lparr>enabled := False\<rparr>) ''input'' 1
      = (Inr (), demo_heap, demo_cp_manager\<lparr>enabled := False\<rparr>)
   \<and> map_option Timestamp (demo_heap 1) = Some 0
   \<and> LoadCheckpoint (demo_cp_manager\<lparr>enabled := False\<rparr>) ''input'' = None
   \<and> GetAllCheckpoints (demo_cp_manager\<lparr>enabled := False\<rparr>) ''input'' = None"
  by (simp add: SaveCheckpoint_def LoadCheckpoint_def GetAllCheckpoints_def demo_heap_def
      demo_checkpoint_def demo_cp_manager_def)

section \<open>Config converter\<close>

text \<open>
  The loop over the processors, up to one that is not registered: it stops with an error, no
  later than at that one, having initialized (or tried to) the first few of those before it;
  and when those before it are all registered and accept their configurations, it stops at
  that one's registry lookup, having initialized exactly them.
\<close>

lemma buildProcessors_unregistered:
  assumes "processors reg (ProcessorType pc) = None"
  shows "\<exists>e k. buildProcessors reg i (pre @ pc # post) acc log
      = (Inl e, log @ take k (map ProcessorType pre))"
proof (induction pre arbitrary: i acc log)
  case Nil
  from assms show ?case by simp
next
  case (Cons q pre)
  show ?case
  proof (cases "processors reg (ProcessorType q)")
    case None
    then have "buildProcessors reg i ((q # pre) @ pc # post) acc log
        = (Inl (FailedToGetProcessor (ProcessorType q)), log @ take 0 (map ProcessorType (q # pre)))"
      by simp
    then show ?thesis by blast
  next
    case (Some processor)
    show ?thesis
    proof (cases "initialize_ok processor (ProcessorSettings q)")
      case False
      with Some have "buildProcessors reg i ((q # pre) @ pc # post) acc log
          = (Inl (FailedToInitializeProcessor i), log @ take 1 (map ProcessorType (q # pre)))"
        by simp
      then show ?thesis by blast
    next
      case True
      from Cons[of "Suc i" "acc @ [processor]" "log @ [ProcessorType q]"] obtain e k where
        "buildProcessors reg (Suc i) (pre @ pc # post) (acc @ [processor]) (log @ [ProcessorType q])
          = (Inl e, (log @ [ProcessorType q]) @ take k (map ProcessorType pre))" by blast
      with Some True have "buildProcessors reg i ((q # pre) @ pc # post) acc log
          = (Inl e, log @ take (Suc k) (map ProcessorType (q # pre)))" by simp
      then show ?thesis by blast
    qed
  qed
qed

lemma buildProcessors_first_unregistered:
  assumes "processors reg (ProcessorType pc) = None"
    and "\<forall>q \<in> set pre. \<exists>processor. processors reg (ProcessorType q) = Some processor
            \<and> initialize_ok processor (ProcessorSettings q)"
  shows "buildProcessors reg i (pre @ pc # post) acc log
      = (Inl (FailedToGetProcessor (ProcessorType pc)), log @ map ProcessorType pre)"
  using assms(2)
proof (induction pre arbitrary: i acc log)
  case Nil
  from assms(1) show ?case by simp
next
  case (Cons q pre)
  from Cons.prems obtain processor where
    q: "processors reg (ProcessorType q) = Some processor"
      "initialize_ok processor (ProcessorSettings q)" by auto
  from Cons.prems have "\<forall>q \<in> set pre. \<exists>processor. processors reg (ProcessorType q) = Some processor
            \<and> initialize_ok processor (ProcessorSettings q)" by simp
  from Cons.IH[OF this, of "Suc i" "acc @ [processor]" "log @ [ProcessorType q]"] q
  show ?case by simp
qed

text \<open>
  C2 (as amended). Validation rejects a spec exactly when its input type or its output type is
  empty, and \<open>ParseYAML\<close> returns what validation says of the parsed spec; neither looks at the
  processors, the registry or a plugin's \<open>Validate\<close>. A spec with a processor whose type is
  not registered is never built: the build step returns an error, having initialized (or
  tried to) no more than the input plugin and some of the processors before that one, in
  order; and when the input plugin and the processors before that one are all registered and
  accept their configurations, the error is that processor's failed registry lookup and
  exactly those plugins have been initialized.
\<close>

theorem validation_checks_endpoints_only:
  "(ValidateConfig config = None \<longleftrightarrow>
      InputType (Input config) \<noteq> [] \<and> OutputType (Output config) \<noteq> [])
   \<and> (unmarshal yamlConfig = Some config \<longrightarrow>
        ParseYAML unmarshal yamlConfig =
          (if InputType (Input config) = [] then Inl InputTypeRequired
           else if OutputType (Output config) = [] then Inl OutputTypeRequired
           else Inr config))
   \<and> (Processors config = pre @ pc # post \<and> processors reg (ProcessorType pc) = None \<longrightarrow>
        (\<exists>e k. BuildPipeline reg config
            = (Inl e, take k (InputType (Input config) # map ProcessorType pre)))
        \<and> ((\<exists>input. inputs reg (InputType (Input config)) = Some input
                \<and> initialize_ok input (InputSettings (Input config)))
            \<and> (\<forall>q \<in> set pre. \<exists>processor. processors reg (ProcessorType q) = Some processor
                  \<and> initialize_ok processor (ProcessorSettings q))
           \<longrightarrow> BuildPipeline reg config
                 = (Inl (FailedToGetProcessor (ProcessorType pc)),
                    InputType (Input config) # map ProcessorType pre)))"
proof -
  have a: "ValidateConfig config = None \<longleftrightarrow>
      InputType (Input config) \<noteq> [] \<and> OutputType (Output config) \<noteq> []"
    by (simp add: ValidateConfig_def)
  have b: "unmarshal yamlConfig = Some config \<longrightarrow>
        ParseYAML unmarshal yamlConfig =
          (if InputType (Input config) = [] then Inl InputTypeRequired
           else if OutputType (Output config) = [] then Inl OutputTypeRequired
           else Inr config)"
    by (simp add: ParseYAML_def ValidateConfig_def)
  have c: "\<exists>e k. BuildPipeline reg config
            = (Inl e, take k (InputType (Input config) # map ProcessorType pre))"
    if p: "Processors config = pre @ pc # post" and u: "processors reg (ProcessorType pc) = None"
  proof (cases "inputs reg (InputType (Input config))")
    case None
    then have "BuildPipeline reg config
        = (Inl (FailedToGetInput (InputType (Input config))),
           take 0 (InputType (Input config) # map ProcessorType pre))"
      by (simp add: BuildPipeline_def)
    then show ?thesis by blast
  next
    case (Some input)
    show ?thesis
    proof (cases "initialize_ok input (InputSettings (Input config))")
      case False
      with Some have "BuildPipeline reg config
          = (Inl FailedToInitializeInput, take 1 (InputType (Input config) # map ProcessorType pre))"
        by (simp add: BuildPipeline_def)
      then show ?thesis by blast
    next
      case True
      from buildProcessors_unregistered[OF u, where i = 0 and pre = pre and post = post and acc = "[]"
          and log = "[InputType (Input config)]"]
      obtain e k where "buildProcessors reg 0 (pre @ pc # post) [] [InputType (Input config)]
          = (Inl e, [InputType (Input config)] @ take k (map ProcessorType pre))" by blast
      with Some True p have "BuildPipeline reg config
          = (Inl e, take (Suc k) (InputType (Input config) # map ProcessorType pre))"
        by (simp add: BuildPipeline_def)
      then show ?thesis by blast
    qed
  qed
  have d: "BuildPipeline reg config
        = (Inl (FailedToGetProcessor (ProcessorType pc)),
           InputType (Input config) # map ProcessorType pre)"
    if p: "Processors config = pre @ pc # post" and u: "processors reg (ProcessorType pc) = None"
      and i: "\<exists>input. inputs reg (InputType (Input config)) = Some input
                \<and> initialize_ok input (InputSettings (Input config))"
      and q: "\<forall>q \<in> set pre. \<exists>processor. processors reg (ProcessorType q) = Some processor
                  \<and> initialize_ok processor (ProcessorSettings q)"
  proof -
    from i obtain input where i': "inputs reg (InputType (Input config)) = Some input"
      "initialize_ok input (InputSettings (Input config))" by blast
    from buildProcessors_first_unregistered[OF u q, where i = 0 and post = post and acc = "[]"
        and log = "[InputType (Input config)]"]
      i' p
    show ?thesis by (simp add: BuildPipeline_def)
  qed
  from a b c d show ?thesis by blast
qed

theorem validation_checks_endpoints_only_witness:
  "ValidateConfig (demo_config ''nosuch'') = None
   \<and> ParseYAML (\<lambda>_. Some (demo_config ''nosuch'')) ''text'' = Inr (demo_config ''nosuch'')
   \<and> BuildPipeline demo_registry (demo_config ''nosuch'')
       = (Inl (FailedToGetProcessor ''nosuch''), [''csv'', ''filter''])"
proof -
  let ?pre = "[\<lparr>ProcessorType = ''filter'', ProcessorSettings = []\<rparr>]"
  let ?pc = "\<lparr>ProcessorType = ''nosuch'', ProcessorSettings = []\<rparr>"
  have p: "Processors (demo_config ''nosuch'') = ?pre @ ?pc # []"
    by (simp add: demo_config_def)
  have u: "processors demo_registry (ProcessorType ?pc) = None"
    by (simp add: demo_registry_def)
  have i: "\<exists>input. inputs demo_registry (InputType (Input (demo_config ''nosuch''))) = Some input
      \<and> initialize_ok input (InputSettings (Input (demo_config ''nosuch'')))"
    by (simp add: demo_config_def demo_registry_def demo_plugin_def)
  have q: "\<forall>q \<in> set ?pre. \<exists>processor. processors demo_registry (ProcessorType q) = Some processor
      \<and> initialize_ok processor (ProcessorSettings q)"
    by (simp add: demo_registry_def demo_plugin_def)
  have t: "(\<lambda>_. Some (demo_config ''nosuch'')) ''text'' = Some (demo_config ''nosuch'')" by simp
  from validation_checks_endpoints_only[where config = "demo_config ''nosuch''"
      and unmarshal = "\<lambda>_. Some (demo_config ''nosuch'')" and yamlConfig = "''text''"
      and pre = ?pre and pc = ?pc and post = "[]" and reg = demo_registry] p u i q
  show ?thesis by (simp add: demo_config_def)
qed

theorem validation_processor_counterexample:
  "ValidateConfig (demo_config []) = None
   \<and> ParseYAML (\<lambda>_. Some (demo_config [])) ''text'' = Inr (demo_config [])
   \<and> processors demo_registry [] = None
   \<and> BuildPipeline demo_registry (demo_config [])
       = (Inl (FailedToGetProcessor []), [''csv'', ''filter''])"
  by (simp add: ValidateConfig_def ParseYAML_def BuildPipeline_def demo_config_def
      demo_registry_def demo_plugin_def)

section \<open>Backpressure probe\<close>

text \<open>
  C1. Both producing stages probe a send-only view of their outbound channel, for which
  \<open>isBackpressure\<close> answers false whatever the occupancy: with 10 of 10 slots taken and the
  threshold 0.8 the ratio is reached, the probe on the bidirectional channel says so, and the
  probes of the input reader and of a processor say no, so neither stage sleeps.
\<close>

theorem backpressure_probe_never_trips:
  "runInputReader_probe ratio_reached buf cap = False
   \<and> runProcessor_probe ratio_reached buf cap = False
   \<and> isBackpressure ratio_reached (BidirChan buf) cap = ratio_reached (length buf) cap
   \<and> exact_ratio_reached 8 10 (length [b0, b1, b2, b3, b4, b5, b6, b7, b8, b9]) 10
   \<and> isBackpressure (exact_ratio_reached 8 10) (BidirChan [b0, b1, b2, b3, b4, b5, b6, b7, b8, b9]) 10
   \<and> \<not> runInputReader_probe (exact_ratio_reached 8 10) [b0, b1, b2, b3, b4, b5, b6, b7, b8, b9] 10
   \<and> \<not> runProcessor_probe (exact_ratio_reached 8 10) [b0, b1, b2, b3, b4, b5, b6, b7, b8, b9] 10"
  by (simp add: runInputReader_probe_def runProcessor_probe_def isBackpressure_def
      exact_ratio_reached_def)


section \<open>Concurrent pipeline: execution\<close>

lemma chans_weight_update:
  "j < length cs \<Longrightarrow>
     chans_weight (cs[j := c']) + length (cs ! j) * (2 * (length cs - j))
       = chans_weight cs + length c' * (2 * (length cs - j))"
proof (induction cs arbitrary: j)
  case Nil
  then show ?case by simp
next
  case (Cons c cs)
  show ?case
  proof (cases j)
    case 0
    then show ?thesis by simp
  next
    case (Suc k)
    with Cons.prems have "k < length cs" by simp
    from Cons.IH[OF this] Suc show ?thesis by simp
  qed
qed

lemma procs_weight_update:
  "i < length pcs \<Longrightarrow>
     procs_weight (pcs[i := pc']) + pc_weight (2 * (length pcs - i) + 1) (pcs ! i)
       = procs_weight pcs + pc_weight (2 * (length pcs - i) + 1) pc'"
proof (induction pcs arbitrary: i)
  case Nil
  then show ?case by simp
next
  case (Cons pc pcs)
  show ?case
  proof (cases i)
    case 0
    then show ?thesis by (simp add: numeral_3_eq_3)
  next
    case (Suc k)
    with Cons.prems have "k < length pcs" by simp
    from Cons.IH[OF this] Suc show ?thesis by simp
  qed
qed

lemma pc_weight_simps [simp]:
  "pc_weight w Loop = 2" "pc_weight w (Sending b) = 2 + w"
  "pc_weight w (Failing e) = 1" "pc_weight w Returned = 0"
  by (simp_all add: pc_weight_def)

text \<open>How the bound moves with one stage or one channel.\<close>

lemma steps_left_proc_update:
  assumes "i < length (proc_pc s)"
  shows "steps_left (s\<lparr>proc_pc := (proc_pc s)[i := pc']\<rparr>)
        + pc_weight (2 * (length (proc_pc s) - i) + 1) (proc_pc s ! i)
      = steps_left s + pc_weight (2 * (length (proc_pc s) - i) + 1) pc'"
  using procs_weight_update[OF assms, of pc'] by (simp add: steps_left_def)

lemma steps_left_chan_update:
  assumes "j < length (chans s)"
  shows "steps_left (s\<lparr>chans := (chans s)[j := c']\<rparr>)
        + length (chans s ! j) * (2 * (length (chans s) - j))
      = steps_left s + length c' * (2 * (length (chans s) - j))"
  using chans_weight_update[OF assms, of c'] by (simp add: steps_left_def)

lemma steps_left_in_update:
  "steps_left (s\<lparr>in_pc := pc'\<rparr>) + pc_weight (2 * length (proc_pc s) + 3) (in_pc s)
      = steps_left s + pc_weight (2 * length (proc_pc s) + 3) pc'"
  by (simp add: steps_left_def)

lemma steps_left_out_update:
  "steps_left (s\<lparr>out_pc := pc'\<rparr>) + pc_weight 0 (out_pc s) = steps_left s + pc_weight 0 pc'"
  by (simp add: steps_left_def)

lemma steps_left_frame [simp]:
  "steps_left (s\<lparr>totalBatches := tb\<rparr>) = steps_left s"
  "steps_left (s\<lparr>totalRecords := tr\<rparr>) = steps_left s"
  "steps_left (s\<lparr>delivered := dl\<rparr>) = steps_left s"
  "steps_left (s\<lparr>errorChan := es\<rparr>) = steps_left s"
  "steps_left (s\<lparr>totalBatches := tb, in_pc := pc\<rparr>) = steps_left (s\<lparr>in_pc := pc\<rparr>)"
  by (simp_all add: steps_left_def)

lemma shape_frame [simp]:
  "shape p (s\<lparr>totalBatches := tb\<rparr>) = shape p s"
  "shape p (s\<lparr>totalRecords := tr\<rparr>) = shape p s"
  "shape p (s\<lparr>delivered := dl\<rparr>) = shape p s"
  "shape p (s\<lparr>errorChan := es\<rparr>) = shape p s"
  "shape p (s\<lparr>in_pc := pc\<rparr>) = shape p s"
  "shape p (s\<lparr>out_pc := pc\<rparr>) = shape p s"
  "shape p (s\<lparr>script := sc\<rparr>) = shape p s"
  "shape p (s\<lparr>proc_pc := (proc_pc s)[i := pc]\<rparr>) = shape p s"
  "shape p (s\<lparr>chans := (chans s)[j := c]\<rparr>) = shape p s"
  by (simp_all add: shape_def)

text \<open>What a stage does with a received batch.\<close>

lemma processBatch_cases:
  assumes "proc_pc s ! i = Loop"
  obtains pc' where "processBatch p i b s = s\<lparr>proc_pc := (proc_pc s)[i := pc']\<rparr>"
    and "pc' = Loop \<and> (\<exists>b'. (procs p ! i) b = Some b' \<and> IsEmpty b')
         \<or> pc' = Failing (ProcessorFailed i) \<and> (procs p ! i) b = None
         \<or> (\<exists>b'. pc' = Sending b' \<and> (procs p ! i) b = Some b' \<and> \<not> IsEmpty b')"
proof (cases "(procs p ! i) b")
  case None
  then have "processBatch p i b s = s\<lparr>proc_pc := (proc_pc s)[i := Failing (ProcessorFailed i)]\<rparr>"
    by (simp add: processBatch_def)
  with None that show ?thesis by blast
next
  case (Some b')
  show ?thesis
  proof (cases "IsEmpty b'")
    case True
    from assms have "(proc_pc s)[i := Loop] = proc_pc s" by (metis list_update_id)
    with Some True have "processBatch p i b s = s\<lparr>proc_pc := (proc_pc s)[i := Loop]\<rparr>"
      by (simp add: processBatch_def)
    with Some True that show ?thesis by blast
  next
    case False
    with Some have "processBatch p i b s = s\<lparr>proc_pc := (proc_pc s)[i := Sending b']\<rparr>"
      by (simp add: processBatch_def)
    with Some False that show ?thesis by blast
  qed
qed

lemma processBatch_steps_left:
  assumes i: "i < length (proc_pc s)" and l: "proc_pc s ! i = Loop"
  shows "steps_left (processBatch p i b s) \<le> steps_left s + 2 * (length (proc_pc s) - i) + 1"
    and "shape p (processBatch p i b s) = shape p s"
proof -
  from processBatch_cases[OF l, where p = p and b = b] obtain pc' where
    e: "processBatch p i b s = s\<lparr>proc_pc := (proc_pc s)[i := pc']\<rparr>"
    and pc': "pc' = Loop \<or> (\<exists>e. pc' = Failing e) \<or> (\<exists>b'. pc' = Sending b')"
    by metis
  from pc' have "pc_weight (2 * (length (proc_pc s) - i) + 1) pc' \<le> 2 * (length (proc_pc s) - i) + 3"
    by auto
  with steps_left_proc_update[OF i, where pc' = pc'] l
  show "steps_left (processBatch p i b s) \<le> steps_left s + 2 * (length (proc_pc s) - i) + 1"
    unfolding e by simp
  show "shape p (processBatch p i b s) = shape p s" unfolding e by simp
qed

lemma writeBatch_steps_left:
  assumes "out_pc s = Loop"
  shows "steps_left (writeBatch p b s) \<le> steps_left s"
    and "shape p (writeBatch p b s) = shape p s"
  using assms steps_left_out_update[where s = s and pc' = "Failing WriteFailed"]
  by (auto simp: writeBatch_def)

lemma processBatch_frame [simp]:
  "in_pc (processBatch p i b s) = in_pc s"
  "out_pc (processBatch p i b s) = out_pc s"
  "chans (processBatch p i b s) = chans s"
  "script (processBatch p i b s) = script s"
  "length (proc_pc (processBatch p i b s)) = length (proc_pc s)"
  "k \<noteq> i \<Longrightarrow> proc_pc (processBatch p i b s) ! k = proc_pc s ! k"
  by (simp_all add: processBatch_def split: option.splits)

lemma writeBatch_frame [simp]:
  "in_pc (writeBatch p b s) = in_pc s"
  "proc_pc (writeBatch p b s) = proc_pc s"
  "chans (writeBatch p b s) = chans s"
  "script (writeBatch p b s) = script s"
  by (simp_all add: writeBatch_def)

lemma send_frame [simp]:
  "in_pc (send p j b s) = in_pc s"
  "script (send p j b s) = script s"
  "length (proc_pc (send p j b s)) = length (proc_pc s)"
  "k \<noteq> j \<Longrightarrow> proc_pc (send p j b s) ! k = proc_pc s ! k"
  by (simp_all add: send_def hand_over_def)

lemma send_steps_left:
  assumes sh: "shape p s" and j: "j \<le> length (proc_pc s)" and cs: "can_send p s j"
  shows "steps_left (send p j b s) \<le> steps_left s + 2 * (length (proc_pc s) - j) + 2"
    and "shape p (send p j b s)"
proof -
  from sh j have jl: "j < length (chans s)" and len: "length (chans s) - j = (length (proc_pc s) - j) + 1"
    by (simp_all add: shape_def)
  have "steps_left (send p j b s) \<le> steps_left s + 2 * (length (proc_pc s) - j) + 2
      \<and> shape p (send p j b s)"
  proof (cases "chan_cap p j = 0")
    case True
    with cs have rr: "receiver_ready s j" by (simp add: can_send_def)
    show ?thesis
    proof (cases "j < length (proc_pc s)")
      case True
      with rr have "proc_pc s ! j = Loop" by (simp add: receiver_ready_def)
      from processBatch_steps_left[OF True this, where p = p and b = b] sh \<open>chan_cap p j = 0\<close> True
      show ?thesis by (simp add: send_def hand_over_def)
    next
      case False
      with rr have "out_pc s = Loop" by (simp add: receiver_ready_def)
      from writeBatch_steps_left[OF this, where p = p and b = b] sh \<open>chan_cap p j = 0\<close> False
      show ?thesis by (simp add: send_def hand_over_def)
    qed
  next
    case False
    from steps_left_chan_update[OF jl, where c' = "chans s ! j @ [b]"] len
    have "steps_left (s\<lparr>chans := (chans s)[j := chans s ! j @ [b]]\<rparr>)
        = steps_left s + 2 * (length (proc_pc s) - j) + 2" by simp
    with False sh show ?thesis by (simp add: send_def)
  qed
  then show "steps_left (send p j b s) \<le> steps_left s + 2 * (length (proc_pc s) - j) + 2"
    and "shape p (send p j b s)" by simp_all
qed

lemma runInputReader_step_decreases:
  assumes st: "runInputReader_step p pick s = Some s'" and sh: "shape p s"
  shows "steps_left s' < steps_left s \<and> shape p s'"
proof (cases "in_pc s")
  case Loop
  show ?thesis
  proof (cases "pipelineCtx_done s")
    case True
    with st Loop have "s' = s\<lparr>in_pc := Returned\<rparr>" by (simp add: runInputReader_step_def)
    with Loop sh show ?thesis by (simp add: steps_left_def shape_def)
  next
    case False
    show ?thesis
    proof (cases "script s")
      case Nil
      with st Loop False have "s' = s\<lparr>in_pc := Returned\<rparr>" by (simp add: runInputReader_step_def)
      with Loop sh show ?thesis by (simp add: steps_left_def shape_def)
    next
      case (Cons r rest)
      with st Loop False have
        "s' = s\<lparr>script := rest, in_pc := Returned\<rparr> \<or>
         s' = s\<lparr>script := rest, in_pc := Failing ReadFailed\<rparr> \<or>
         (\<exists>b. s' = s\<lparr>script := rest, in_pc := Sending b\<rparr>)"
        by (auto simp: runInputReader_step_def split: read_result.splits if_splits)
      with Loop sh Cons show ?thesis by (auto simp: steps_left_def shape_def)
    qed
  qed
next
  case (Sending b)
  from st Sending consider
    (ret) "s' = s\<lparr>in_pc := Returned\<rparr>"
    | (sent) "can_send p s 0"
        "s' = (send p 0 b s)\<lparr>totalBatches := totalBatches s + 1, in_pc := Loop\<rparr>"
    by (auto simp: runInputReader_step_def select2_def split: select_case.splits if_splits)
  then show ?thesis
  proof cases
    case ret
    with Sending sh show ?thesis by (simp add: steps_left_def shape_def)
  next
    case sent
    let ?s1 = "send p 0 b s"
    from send_steps_left[OF sh _ sent(1), where b = b]
    have b1: "steps_left ?s1 \<le> steps_left s + 2 * length (proc_pc s) + 2" and sh1: "shape p ?s1"
      by simp_all
    from steps_left_in_update[where s = ?s1 and pc' = Loop] Sending
    have "steps_left (?s1\<lparr>in_pc := Loop\<rparr>) + 2 * length (proc_pc s) + 3 = steps_left ?s1"
      by simp
    with b1 sh1 show ?thesis unfolding sent(2) by simp
  qed
next
  case (Failing e)
  with st have "s' = s\<lparr>errorChan := errorChan s @ [e], in_pc := Returned\<rparr>"
    by (auto simp: runInputReader_step_def send_error_def split: if_splits)
  with Failing sh show ?thesis by (simp add: steps_left_def shape_def)
next
  case Returned
  with st show ?thesis by (simp add: runInputReader_step_def)
qed

lemma runProcessor_step_decreases:
  assumes st: "runProcessor_step p i pick s = Some s'" and sh: "shape p s"
  shows "steps_left s' < steps_left s \<and> shape p s'"
proof -
  from st have i: "i < length (proc_pc s)" "i < length (procs p)" "i + 1 < length (chans s)"
    by (auto simp: runProcessor_step_def split: if_splits)
  from sh i have ic: "i < length (chans s)"
    and e1: "length (chans s) - i = (length (proc_pc s) - i) + 1"
    and e2: "length (proc_pc s) - (i + 1) + 1 = length (proc_pc s) - i"
    by (simp_all add: shape_def)
  show ?thesis
  proof (cases "proc_pc s ! i")
    case Loop
    from st i Loop consider
      (ret) "s' = s\<lparr>proc_pc := (proc_pc s)[i := Returned]\<rparr>"
      | (recv) b rest where "chans s ! i = b # rest"
          "s' = processBatch p i b (s\<lparr>chans := (chans s)[i := rest]\<rparr>)"
      unfolding runProcessor_step_def
      by (auto split: select_case.splits list.splits if_splits)
    then show ?thesis
    proof cases
      case ret
      from steps_left_proc_update[OF i(1), where pc' = Returned] Loop sh show ?thesis
        unfolding ret by simp
    next
      case recv
      let ?s1 = "s\<lparr>chans := (chans s)[i := rest]\<rparr>"
      from steps_left_chan_update[OF ic, where c' = rest] recv(1) e1
      have "steps_left ?s1 + 2 * (length (proc_pc s) - i) + 2 = steps_left s" by simp
      moreover from processBatch_steps_left[where i = i and s = ?s1 and p = p and b = b] i(1) Loop
      have "steps_left (processBatch p i b ?s1) \<le> steps_left ?s1 + 2 * (length (proc_pc s) - i) + 1"
        "shape p (processBatch p i b ?s1) = shape p ?s1" by simp_all
      ultimately show ?thesis using sh unfolding recv(2) by simp
    qed
  next
    case (Sending b)
    from st i Sending consider
      (ret) "s' = s\<lparr>proc_pc := (proc_pc s)[i := Returned]\<rparr>"
      | (sent) "can_send p s (i + 1)"
          "s' = (send p (i + 1) b s)\<lparr>proc_pc := (proc_pc (send p (i + 1) b s))[i := Loop]\<rparr>"
      unfolding runProcessor_step_def Let_def
      by (auto simp: select2_def split: select_case.splits if_splits)
    then show ?thesis
    proof cases
      case ret
      from steps_left_proc_update[OF i(1), where pc' = Returned] Sending sh show ?thesis
        unfolding ret by simp
    next
      case sent
      let ?s1 = "send p (i + 1) b s"
      from i have "i + 1 \<le> length (proc_pc s)" by simp
      from send_steps_left[OF sh this sent(1), where b = b] e2
      have b1: "steps_left ?s1 + 1 \<le> steps_left s + 2 * (length (proc_pc s) - i) + 1"
        and sh1: "shape p ?s1" by simp_all
      have "i < length (proc_pc ?s1)" "proc_pc ?s1 ! i = Sending b"
        using i Sending by simp_all
      with steps_left_proc_update[where i = i and s = ?s1 and pc' = Loop]
      have "steps_left (?s1\<lparr>proc_pc := (proc_pc ?s1)[i := Loop]\<rparr>)
            + 2 * (length (proc_pc s) - i) + 1 = steps_left ?s1" by simp
      with b1 sh1 show ?thesis unfolding sent(2) by simp
    qed
  next
    case (Failing err)
    with st i have e: "s' = s\<lparr>errorChan := errorChan s @ [err], proc_pc := (proc_pc s)[i := Returned]\<rparr>"
      unfolding runProcessor_step_def send_error_def by (auto split: if_splits)
    from steps_left_proc_update[OF i(1), where pc' = Returned] Failing
    have "steps_left (s\<lparr>proc_pc := (proc_pc s)[i := Returned]\<rparr>) < steps_left s" by simp
    then have "steps_left s' < steps_left s" unfolding e by (simp add: steps_left_def)
    with sh show ?thesis unfolding e by (simp add: shape_def)
  next
    case Returned
    with st i show ?thesis by (simp add: runProcessor_step_def)
  qed
qed

lemma runOutputWriter_step_decreases:
  assumes st: "runOutputWriter_step p pick s = Some s'" and sh: "shape p s"
  shows "steps_left s' < steps_left s \<and> shape p s'"
proof -
  define n where "n = length (chans s) - 1"
  from sh have ne: "chans s \<noteq> []" and nl: "n < length (chans s)" and e1: "length (chans s) - n = 1"
    by (auto simp: shape_def n_def)
  show ?thesis
  proof (cases "out_pc s")
    case Loop
    from st ne Loop consider
      (ret) "s' = s\<lparr>out_pc := Returned\<rparr>"
      | (recv) b rest where "chans s ! n = b # rest"
          "s' = writeBatch p b (s\<lparr>chans := (chans s)[n := rest]\<rparr>)"
      unfolding runOutputWriter_step_def Let_def n_def
      by (auto split: select_case.splits list.splits if_splits)
    then show ?thesis
    proof cases
      case ret
      with Loop sh show ?thesis by (simp add: steps_left_def shape_def)
    next
      case recv
      let ?s1 = "s\<lparr>chans := (chans s)[n := rest]\<rparr>"
      from steps_left_chan_update[OF nl, where c' = rest] recv(1) e1
      have "steps_left ?s1 + 2 = steps_left s" by simp
      moreover from writeBatch_steps_left[where s = ?s1 and p = p and b = b] Loop
      have "steps_left (writeBatch p b ?s1) \<le> steps_left ?s1"
        "shape p (writeBatch p b ?s1) = shape p ?s1" by simp_all
      ultimately show ?thesis using sh unfolding recv(2) by simp
    qed
  next
    case (Sending b)
    with st ne show ?thesis by (simp add: runOutputWriter_step_def)
  next
    case (Failing e)
    with st ne have "s' = s\<lparr>errorChan := errorChan s @ [e], out_pc := Returned\<rparr>"
      by (auto simp: runOutputWriter_step_def send_error_def split: if_splits)
    with Failing sh show ?thesis by (simp add: steps_left_def shape_def)
  next
    case Returned
    with st ne show ?thesis by (simp add: runOutputWriter_step_def)
  qed
qed

lemma waiter_step_decreases:
  assumes "waiter_step s = Some s'" and "shape p s"
  shows "steps_left s' < steps_left s \<and> shape p s'"
  using assms by (auto simp: waiter_step_def steps_left_def shape_def split: if_splits)

lemma Execute_step_decreases:
  assumes "Execute_step p choice s = Some s'" and "shape p s"
  shows "steps_left s' < steps_left s \<and> shape p s'"
  using assms
  by (auto simp: Execute_step_def Execute_return_def steps_left_def shape_def
      split: main_pc.splits exec_choice.splits if_splits list.splits)

lemma step_decreases:
  assumes "step p s a = Some s'" and "shape p s"
  shows "steps_left s' < steps_left s \<and> shape p s'"
proof (cases a)
  case (InputStep pick)
  with assms show ?thesis by (simp add: runInputReader_step_decreases)
next
  case (ProcStep i pick)
  with assms show ?thesis by (simp add: runProcessor_step_decreases)
next
  case (OutputStep pick)
  with assms show ?thesis by (simp add: runOutputWriter_step_decreases)
next
  case WaiterStep
  with assms show ?thesis by (simp add: waiter_step_decreases)
next
  case (ExecStep choice)
  with assms show ?thesis by (simp add: Execute_step_decreases)
next
  case CancelCtx
  with assms show ?thesis
    by (auto simp: steps_left_def shape_def split: main_pc.splits if_splits)
qed

lemma run_bounded:
  assumes "run p s as = Some s'" and "shape p s"
  shows "steps_left s' + length as \<le> steps_left s \<and> shape p s'"
  using assms
proof (induction as arbitrary: s)
  case Nil
  then show ?case by simp
next
  case (Cons a as)
  from Cons.prems(1) obtain s1 where s1: "step p s a = Some s1" and r: "run p s1 as = Some s'"
    by (auto split: option.splits)
  from step_decreases[OF s1 Cons.prems(2)] have d: "steps_left s1 < steps_left s" "shape p s1" by auto
  from Cons.IH[OF r d(2)] d(1) show ?case by simp
qed

lemma shape_start: "shape p (Execute_start p reads c)"
  by (simp add: Execute_start_def shape_def Let_def)

lemma quiet_start:
  assumes "clean_run p reads"
  shows "quiet p (Execute_start p reads False)"
  using assms
  by (auto simp: clean_run_def quiet_def shape_def transit_ok_def order_ok_def control_ok_def
      Execute_start_def Let_def chan_closed_def all_returned_def nth_Cons split: nat.splits)

lemma quiet_stage_live:
  assumes "quiet p s" and "\<not> all_returned s"
  shows "\<not> pipelineCtx_done s" and "\<not> done_closed s" and "exec_pc s = MSelect"
  using assms by (auto simp: quiet_def control_ok_def pipelineCtx_done_def)

lemma all_returned_inD: "in_pc s \<noteq> Returned \<Longrightarrow> \<not> all_returned s"
  and all_returned_outD: "out_pc s \<noteq> Returned \<Longrightarrow> \<not> all_returned s"
  and all_returned_procD: "i < length (proc_pc s) \<Longrightarrow> proc_pc s ! i \<noteq> Returned \<Longrightarrow> \<not> all_returned s"
  by (auto simp: all_returned_def)

lemma select2_not_done [simp]:
  "select2 pick False ready = (if ready then TakeOther else Blocked)"
  by (simp add: select2_def)

lemma filtered_out_nth:
  assumes "filtered_out (drop i fs) b" and "i < length fs"
  shows "\<exists>b'. (fs ! i) b = Some b' \<and> (IsEmpty b' \<or> filtered_out (drop (Suc i) fs) b')"
proof -
  from assms(2) have "drop i fs = fs ! i # drop (Suc i) fs" by (simp add: Cons_nth_drop_Suc)
  with assms(1) show ?thesis by (auto split: option.splits)
qed

text \<open>The invariant under a change of the channels, or of where one stage stands.\<close>

lemma order_ok_chans:
  assumes "order_ok s" and "\<And>k. chan_closed s k \<Longrightarrow> chans s ! k = [] \<Longrightarrow> cs ! k = []"
  shows "order_ok (s\<lparr>chans := cs\<rparr>)"
proof -
  have "chan_closed (s\<lparr>chans := cs\<rparr>) k = chan_closed s k" for k by (simp add: chan_closed_def)
  with assms show ?thesis by (simp add: order_ok_def)
qed

lemma order_ok_proc_pc:
  assumes ord: "order_ok s" and i: "i < length (proc_pc s)"
    and live: "proc_pc s ! i \<noteq> Returned" and nr: "pc' \<noteq> Returned"
  shows "order_ok (s\<lparr>proc_pc := (proc_pc s)[i := pc']\<rparr>)"
proof -
  let ?s' = "s\<lparr>proc_pc := (proc_pc s)[i := pc']\<rparr>"
  have closed: "chan_closed ?s' k" if "chan_closed s k" for k
    using that live i by (auto simp: chan_closed_def nth_list_update split: if_splits)
  have "chan_closed ?s' k \<and> chans ?s' ! k = []"
    if k: "k < length (proc_pc ?s')" and r: "proc_pc ?s' ! k = Returned" for k
  proof -
    from r nr i have ki: "k \<noteq> i" by (auto simp: nth_list_update split: if_splits)
    with r have "proc_pc s ! k = Returned" by simp
    with ord k have c: "chan_closed s k" "chans s ! k = []" by (auto simp: order_ok_def)
    from closed[OF c(1)] c(2) show ?thesis by simp
  qed
  moreover have "chan_closed ?s' (length (proc_pc ?s')) \<and> chans ?s' ! length (proc_pc ?s') = []"
    if "out_pc ?s' = Returned"
  proof -
    from that ord have c: "chan_closed s (length (proc_pc s))" "chans s ! length (proc_pc s) = []"
      by (auto simp: order_ok_def)
    from closed[OF c(1)] c(2) show ?thesis by simp
  qed
  ultimately show ?thesis unfolding order_ok_def by blast
qed

lemma order_ok_proc_returns:
  assumes ord: "order_ok s" and i: "i < length (proc_pc s)"
    and cl: "chan_closed s i" and em: "chans s ! i = []"
  shows "order_ok (s\<lparr>proc_pc := (proc_pc s)[i := Returned]\<rparr>)"
proof -
  let ?s' = "s\<lparr>proc_pc := (proc_pc s)[i := Returned]\<rparr>"
  have closed: "chan_closed ?s' k" if "chan_closed s k" for k
    using that i by (auto simp: chan_closed_def nth_list_update split: if_splits)
  have "chan_closed ?s' k \<and> chans ?s' ! k = []"
    if k: "k < length (proc_pc ?s')" and r: "proc_pc ?s' ! k = Returned" for k
  proof (cases "k = i")
    case True
    with closed[OF cl] em show ?thesis by simp
  next
    case False
    with r have "proc_pc s ! k = Returned" by simp
    with ord k have c: "chan_closed s k" "chans s ! k = []" by (auto simp: order_ok_def)
    from closed[OF c(1)] c(2) show ?thesis by simp
  qed
  moreover have "chan_closed ?s' (length (proc_pc ?s')) \<and> chans ?s' ! length (proc_pc ?s') = []"
    if "out_pc ?s' = Returned"
  proof -
    from that ord have c: "chan_closed s (length (proc_pc s))" "chans s ! length (proc_pc s) = []"
      by (auto simp: order_ok_def)
    from closed[OF c(1)] c(2) show ?thesis by simp
  qed
  ultimately show ?thesis unfolding order_ok_def by blast
qed

lemma control_ok_live:
  assumes "control_ok s" and "\<not> done_closed s"
    and "ctx_done s' = ctx_done s" "errorChan s' = errorChan s" "done_closed s' = done_closed s"
    and "delivered s' = delivered s" "totalRecords s' = totalRecords s" "exec_pc s' = exec_pc s"
    and "cancel_called s' = cancel_called s" "flushes s' = flushes s"
    and "input_closes s' = input_closes s" "output_closes s' = output_closes s"
  shows "control_ok s'"
  using assms by (simp add: control_ok_def)

lemma quiet_chans:
  assumes q: "quiet p s" and len: "length cs = length (chans s)"
    and keep: "\<And>k. chan_closed s k \<Longrightarrow> chans s ! k = [] \<Longrightarrow> cs ! k = []"
    and cq: "\<And>k b. k < length cs \<Longrightarrow> b \<in> set (cs ! k) \<Longrightarrow> filtered_out (drop k (procs p)) b"
  shows "quiet p (s\<lparr>chans := cs\<rparr>)"
proof -
  from q have sh: "shape p s" and tr: "transit_ok p s" and ord: "order_ok s" and ct: "control_ok s"
    by (simp_all add: quiet_def)
  have "shape p (s\<lparr>chans := cs\<rparr>)" using sh len by (simp add: shape_def)
  moreover have "transit_ok p (s\<lparr>chans := cs\<rparr>)" using tr cq by (simp add: transit_ok_def)
  moreover have "order_ok (s\<lparr>chans := cs\<rparr>)" by (rule order_ok_chans[OF ord keep])
  moreover have "control_ok (s\<lparr>chans := cs\<rparr>)" using ct by (simp add: control_ok_def all_returned_def)
  ultimately show ?thesis by (simp add: quiet_def)
qed

lemma quiet_proc_pc:
  assumes q: "quiet p s" and i: "i < length (proc_pc s)"
    and live: "proc_pc s ! i \<noteq> Returned" and nr: "pc' \<noteq> Returned"
    and pq: "pc_quiet (drop (Suc i) (procs p)) pc'"
  shows "quiet p (s\<lparr>proc_pc := (proc_pc s)[i := pc']\<rparr>)"
proof -
  let ?s' = "s\<lparr>proc_pc := (proc_pc s)[i := pc']\<rparr>"
  from q have sh: "shape p s" and tr: "transit_ok p s" and ord: "order_ok s" and ct: "control_ok s"
    by (simp_all add: quiet_def)
  from quiet_stage_live[OF q all_returned_procD[OF i live]] have nd: "\<not> done_closed s" by simp
  have "shape p ?s'" using sh by simp
  moreover have "transit_ok p ?s'" using tr pq i by (auto simp: transit_ok_def nth_list_update)
  moreover have "order_ok ?s'" by (rule order_ok_proc_pc[OF ord i live nr])
  moreover have "control_ok ?s'" by (rule control_ok_live[OF ct nd]) simp_all
  ultimately show ?thesis by (simp add: quiet_def)
qed

lemma quiet_proc_returns:
  assumes q: "quiet p s" and i: "i < length (proc_pc s)" and live: "proc_pc s ! i \<noteq> Returned"
    and cl: "chan_closed s i" and em: "chans s ! i = []"
  shows "quiet p (s\<lparr>proc_pc := (proc_pc s)[i := Returned]\<rparr>)"
proof -
  let ?s' = "s\<lparr>proc_pc := (proc_pc s)[i := Returned]\<rparr>"
  from q have sh: "shape p s" and tr: "transit_ok p s" and ord: "order_ok s" and ct: "control_ok s"
    by (simp_all add: quiet_def)
  from quiet_stage_live[OF q all_returned_procD[OF i live]] have nd: "\<not> done_closed s" by simp
  have "shape p ?s'" using sh by simp
  moreover have "transit_ok p ?s'" using tr i by (auto simp: transit_ok_def nth_list_update)
  moreover have "order_ok ?s'" by (rule order_ok_proc_returns[OF ord i cl em])
  moreover have "control_ok ?s'" by (rule control_ok_live[OF ct nd]) simp_all
  ultimately show ?thesis by (simp add: quiet_def)
qed

lemma quiet_in_pc:
  assumes q: "quiet p s" and live: "in_pc s \<noteq> Returned"
    and pq: "pc_quiet (procs p) pc'"
  shows "quiet p (s\<lparr>in_pc := pc'\<rparr>)"
proof -
  let ?s' = "s\<lparr>in_pc := pc'\<rparr>"
  from q have sh: "shape p s" and tr: "transit_ok p s" and ord: "order_ok s" and ct: "control_ok s"
    by (simp_all add: quiet_def)
  from quiet_stage_live[OF q all_returned_inD[OF live]] have nd: "\<not> done_closed s" by simp
  have cl: "chan_closed s k \<Longrightarrow> chan_closed ?s' k" for k
    using live by (auto simp: chan_closed_def split: if_splits)
  have "shape p ?s'" using sh by simp
  moreover have "transit_ok p ?s'" using tr pq by (simp add: transit_ok_def)
  moreover have "order_ok ?s'" using ord cl unfolding order_ok_def by simp
  moreover have "control_ok ?s'" by (rule control_ok_live[OF ct nd]) simp_all
  ultimately show ?thesis by (simp add: quiet_def)
qed

lemma quiet_frame [simp]:
  "quiet p (s\<lparr>totalBatches := tb\<rparr>) = quiet p s"
  "quiet p (s\<lparr>totalBatches := tb, in_pc := pc\<rparr>) = quiet p (s\<lparr>in_pc := pc\<rparr>)"
  by (simp_all add: quiet_def shape_def transit_ok_def order_ok_def control_ok_def
      chan_closed_def all_returned_def)

lemma quiet_script:
  assumes q: "quiet p s" and r: "list_all (read_filtered p) rest"
  shows "quiet p (s\<lparr>script := rest\<rparr>)"
proof -
  let ?s' = "s\<lparr>script := rest\<rparr>"
  from q have sh: "shape p s" and tr: "transit_ok p s" and ord: "order_ok s" and ct: "control_ok s"
    by (simp_all add: quiet_def)
  have "chan_closed ?s' k = chan_closed s k" for k by (simp add: chan_closed_def)
  then have "order_ok ?s'" using ord by (simp add: order_ok_def)
  moreover have "shape p ?s'" using sh by simp
  moreover have "transit_ok p ?s'" using tr r by (simp add: transit_ok_def)
  moreover have "control_ok ?s'" using ct by (simp add: control_ok_def all_returned_def)
  ultimately show ?thesis by (simp add: quiet_def)
qed

text \<open>A batch that will be filtered out is sent on channel \<open>j\<close> by a stage still running.\<close>

lemma quiet_send:
  assumes q: "quiet p s" and j: "j \<le> length (proc_pc s)"
    and f: "filtered_out (drop j (procs p)) b"
    and cs: "can_send p s j" and open_j: "\<not> chan_closed s j"
  shows "quiet p (send p j b s)"
proof -
  from q have sh: "shape p s" and tr: "transit_ok p s" and ord: "order_ok s"
    by (simp_all add: quiet_def)
  from f have "drop j (procs p) \<noteq> []" by auto
  with sh have jn: "j < length (proc_pc s)" "j < length (procs p)" "j < length (chans s)"
    by (simp_all add: shape_def)
  from ord jn(1) open_j have live: "proc_pc s ! j \<noteq> Returned" by (auto simp: order_ok_def)
  show ?thesis
  proof (cases "chan_cap p j = 0")
    case True
    with cs jn(1) have l: "proc_pc s ! j = Loop" by (simp add: can_send_def receiver_ready_def)
    from filtered_out_nth[OF f jn(2)] obtain b' where
      pb: "(procs p ! j) b = Some b'" and fb: "IsEmpty b' \<or> filtered_out (drop (Suc j) (procs p)) b'"
      by blast
    from processBatch_cases[OF l, where p = p and b = b] obtain pc' where
      e: "processBatch p j b s = s\<lparr>proc_pc := (proc_pc s)[j := pc']\<rparr>"
      and pc': "pc' = Loop \<and> (\<exists>b'. (procs p ! j) b = Some b' \<and> IsEmpty b')
         \<or> pc' = Failing (ProcessorFailed j) \<and> (procs p ! j) b = None
         \<or> (\<exists>b'. pc' = Sending b' \<and> (procs p ! j) b = Some b' \<and> \<not> IsEmpty b')"
      by blast
    from pc' pb fb have "pc' \<noteq> Returned" "pc_quiet (drop (Suc j) (procs p)) pc'" by auto
    from quiet_proc_pc[OF q jn(1) live this] True jn(1) show ?thesis
      by (simp add: send_def hand_over_def e)
  next
    case False
    have "quiet p (s\<lparr>chans := (chans s)[j := chans s ! j @ [b]]\<rparr>)"
    proof (rule quiet_chans[OF q])
      show "length ((chans s)[j := chans s ! j @ [b]]) = length (chans s)" by simp
      show "(chans s)[j := chans s ! j @ [b]] ! k = []" if "chan_closed s k" "chans s ! k = []" for k
        using that open_j by (cases "k = j") auto
      show "filtered_out (drop k (procs p)) x"
        if "k < length ((chans s)[j := chans s ! j @ [b]])"
          "x \<in> set ((chans s)[j := chans s ! j @ [b]] ! k)" for k x
        using that tr f by (cases "k = j") (auto simp: transit_ok_def)
    qed
    with False show ?thesis by (simp add: send_def)
  qed
qed

lemma quiet_input_step:
  assumes st: "runInputReader_step p pick s = Some s'" and q: "quiet p s"
  shows "quiet p s'"
proof -
  from st have live: "in_pc s \<noteq> Returned" by (auto simp: runInputReader_step_def)
  from quiet_stage_live[OF q all_returned_inD[OF live]]
  have nd: "\<not> pipelineCtx_done s" "\<not> done_closed s" "exec_pc s = MSelect" .
  from q have sh: "shape p s" and tr: "transit_ok p s" and ord: "order_ok s" and ct: "control_ok s"
    by (simp_all add: quiet_def)
  show ?thesis
  proof (cases "in_pc s")
    case Loop
    from st Loop nd(1) tr have
      "(\<exists>rest. s' = s\<lparr>script := rest, in_pc := Returned\<rparr> \<and> list_all (read_filtered p) rest) \<or>
       (\<exists>rest b. s' = s\<lparr>script := rest, in_pc := Sending b\<rparr> \<and> list_all (read_filtered p) rest
            \<and> filtered_out (procs p) b)"
      unfolding runInputReader_step_def transit_ok_def
      by (cases "script s")
         (auto split: read_result.splits if_splits intro: exI[of _ "[]"])
    then show ?thesis
    proof (elim disjE exE conjE)
      fix rest assume e: "s' = s\<lparr>script := rest, in_pc := Returned\<rparr>" and r: "list_all (read_filtered p) rest"
      from sh tr ord ct nd r show ?thesis
        unfolding e quiet_def shape_def transit_ok_def order_ok_def control_ok_def chan_closed_def
        by auto
    next
      fix rest b assume e: "s' = s\<lparr>script := rest, in_pc := Sending b\<rparr>"
        and r: "list_all (read_filtered p) rest" and f: "filtered_out (procs p) b"
      from quiet_script[OF q r] have "quiet p (s\<lparr>script := rest\<rparr>)" .
      from quiet_in_pc[OF this, of "Sending b"] live f show ?thesis unfolding e by simp
    qed
  next
    case (Sending b)
    from tr Sending have f: "filtered_out (drop 0 (procs p)) b" by (simp add: transit_ok_def)
    from st Sending nd(1) have cs: "can_send p s 0"
      and e: "s' = (send p 0 b s)\<lparr>totalBatches := totalBatches s + 1, in_pc := Loop\<rparr>"
      by (auto simp: runInputReader_step_def split: if_splits)
    from Sending have "\<not> chan_closed s 0" by (simp add: chan_closed_def)
    from quiet_send[OF q _ f cs this] have q1: "quiet p (send p 0 b s)" by simp
    from quiet_in_pc[OF q1, of Loop] Sending show ?thesis unfolding e by simp
  next
    case (Failing x)
    with tr show ?thesis by (simp add: transit_ok_def)
  next
    case Returned
    with live show ?thesis by simp
  qed
qed

lemma quiet_proc_step:
  assumes st: "runProcessor_step p i pick s = Some s'" and q: "quiet p s"
  shows "quiet p s'"
proof -
  from st have i: "i < length (proc_pc s)" "i < length (procs p)" "i + 1 < length (chans s)"
    and live: "proc_pc s ! i \<noteq> Returned"
    by (auto simp: runProcessor_step_def split: if_splits)
  from quiet_stage_live[OF q all_returned_procD[OF i(1) live]]
  have nd: "\<not> pipelineCtx_done s" "\<not> done_closed s" "exec_pc s = MSelect" .
  from q have tr: "transit_ok p s" by (simp add: quiet_def)
  from tr have chq: "\<And>j b. j < length (chans s) \<Longrightarrow> b \<in> set (chans s ! j) \<Longrightarrow>
      filtered_out (drop j (procs p)) b"
    and pcq: "\<And>k. k < length (proc_pc s) \<Longrightarrow> pc_quiet (drop (Suc k) (procs p)) (proc_pc s ! k)"
    by (auto simp: transit_ok_def)
  from i have ic: "i < length (chans s)" by simp
  show ?thesis
  proof (cases "proc_pc s ! i")
    case Loop
    show ?thesis
    proof (cases "chans s ! i")
      case Nil
      with st i Loop nd(1) have cl: "chan_closed s i"
        and e: "s' = s\<lparr>proc_pc := (proc_pc s)[i := Returned]\<rparr>"
        by (auto simp: runProcessor_step_def split: if_splits)
      from quiet_proc_returns[OF q i(1) live cl Nil] show ?thesis unfolding e .
    next
      case (Cons b rest)
      let ?s1 = "s\<lparr>chans := (chans s)[i := rest]\<rparr>"
      from st i Loop nd(1) Cons have e: "s' = processBatch p i b ?s1"
        by (auto simp: runProcessor_step_def split: if_splits)
      have q1: "quiet p ?s1"
      proof (rule quiet_chans[OF q])
        show "length ((chans s)[i := rest]) = length (chans s)" by simp
        show "(chans s)[i := rest] ! k = []" if "chan_closed s k" "chans s ! k = []" for k
          using that Cons by (cases "k = i") auto
        show "filtered_out (drop k (procs p)) x"
          if "k < length ((chans s)[i := rest])" "x \<in> set ((chans s)[i := rest] ! k)" for k x
          using that chq[of k x] chq[of i x] Cons ic by (cases "k = i") auto
      qed
      from chq[OF ic, of b] Cons have "filtered_out (drop i (procs p)) b" by simp
      from filtered_out_nth[OF this i(2)] obtain b' where
        pb: "(procs p ! i) b = Some b'" and fb: "IsEmpty b' \<or> filtered_out (drop (Suc i) (procs p)) b'"
        by blast
      have l1: "proc_pc ?s1 ! i = Loop" using Loop by simp
      from processBatch_cases[OF l1, where p = p and b = b] obtain pc' where
        e1: "processBatch p i b ?s1 = ?s1\<lparr>proc_pc := (proc_pc ?s1)[i := pc']\<rparr>"
        and pc': "pc' = Loop \<and> (\<exists>b'. (procs p ! i) b = Some b' \<and> IsEmpty b')
           \<or> pc' = Failing (ProcessorFailed i) \<and> (procs p ! i) b = None
           \<or> (\<exists>b'. pc' = Sending b' \<and> (procs p ! i) b = Some b' \<and> \<not> IsEmpty b')"
        by blast
      from pc' pb fb have nr: "pc' \<noteq> Returned" and pq: "pc_quiet (drop (Suc i) (procs p)) pc'"
        by auto
      have "i < length (proc_pc ?s1)" "proc_pc ?s1 ! i \<noteq> Returned" using i live by simp_all
      from quiet_proc_pc[OF q1 this nr pq] show ?thesis unfolding e e1 .
    qed
  next
    case (Sending b)
    let ?s1 = "send p (i + 1) b s"
    from pcq[OF i(1)] Sending have fb: "filtered_out (drop (i + 1) (procs p)) b" by simp
    from st i Sending nd(1) have cs: "can_send p s (i + 1)"
      and e: "s' = ?s1\<lparr>proc_pc := (proc_pc ?s1)[i := Loop]\<rparr>"
      by (auto simp: runProcessor_step_def Let_def split: if_splits)
    from Sending have op: "\<not> chan_closed s (i + 1)" by (simp add: chan_closed_def)
    from i have "i + 1 \<le> length (proc_pc s)" by simp
    from quiet_send[OF q this fb cs op] have q1: "quiet p ?s1" .
    have "i < length (proc_pc ?s1)" "proc_pc ?s1 ! i \<noteq> Returned" using i Sending by simp_all
    from quiet_proc_pc[OF q1 this, of Loop] show ?thesis unfolding e by simp
  next
    case (Failing x)
    with pcq[OF i(1)] show ?thesis by simp
  next
    case Returned
    with live show ?thesis by simp
  qed
qed

lemma order_ok_cong:
  "proc_pc s' = proc_pc s \<Longrightarrow> in_pc s' = in_pc s \<Longrightarrow> out_pc s' = out_pc s \<Longrightarrow>
   chans s' = chans s \<Longrightarrow> order_ok s' = order_ok s"
  by (simp add: order_ok_def chan_closed_def)

lemma transit_ok_cong:
  "proc_pc s' = proc_pc s \<Longrightarrow> in_pc s' = in_pc s \<Longrightarrow> out_pc s' = out_pc s \<Longrightarrow>
   chans s' = chans s \<Longrightarrow> script s' = script s \<Longrightarrow> transit_ok p s' = transit_ok p s"
  by (simp add: transit_ok_def)

lemma shape_cong:
  "proc_pc s' = proc_pc s \<Longrightarrow> chans s' = chans s \<Longrightarrow> shape p s' = shape p s"
  by (simp add: shape_def)

lemma quiet_output_step:
  assumes st: "runOutputWriter_step p pick s = Some s'" and q: "quiet p s"
  shows "quiet p s'"
proof -
  from q have sh: "shape p s" and tr: "transit_ok p s" and ord: "order_ok s" and ct: "control_ok s"
    by (simp_all add: quiet_def)
  define n where "n = length (proc_pc s)"
  from sh have n: "length (chans s) - 1 = n" "chans s \<noteq> []" "n < length (chans s)"
    "drop n (procs p) = []"
    by (auto simp: shape_def n_def)
  from tr have "out_pc s = Loop \<or> out_pc s = Returned" by (simp add: transit_ok_def)
  with st n(2) have live: "out_pc s = Loop"
    by (auto simp: runOutputWriter_step_def)
  then have "out_pc s \<noteq> Returned" by simp
  from quiet_stage_live[OF q all_returned_outD[OF this]]
  have nd: "\<not> pipelineCtx_done s" "\<not> done_closed s" "exec_pc s = MSelect" .
  from tr n(3) have "\<forall>b \<in> set (chans s ! n). filtered_out (drop n (procs p)) b"
    by (simp add: transit_ok_def)
  then have "\<And>b. b \<in> set (chans s ! n) \<Longrightarrow> False"
    unfolding n(4) by simp
  then have em: "chans s ! n = []"
    by (cases "chans s ! n") force+
  from st live nd(1) n em have cl: "chan_closed s n" and e: "s' = s\<lparr>out_pc := Returned\<rparr>"
    by (auto simp: runOutputWriter_step_def Let_def select2_def split: if_splits)
  have "shape p s'" using sh by (simp add: e shape_def)
  moreover have "transit_ok p s'" using tr by (simp add: e transit_ok_def)
  moreover have "order_ok s'"
  proof -
    have "chan_closed s' n = chan_closed s n" by (simp add: e chan_closed_def)
    moreover have "\<And>i. chan_closed s' i = chan_closed s i" by (simp add: e chan_closed_def)
    ultimately show ?thesis using ord cl em
      by (simp add: order_ok_def n_def) (simp add: e)
  qed
  moreover have "control_ok s'" using ct nd
    by (simp add: e control_ok_def)
  ultimately show ?thesis by (simp add: quiet_def)
qed

lemma quiet_waiter_step:
  assumes st: "waiter_step s = Some s'" and q: "quiet p s"
  shows "quiet p s'"
proof -
  from st have ar: "all_returned s" and e: "s' = s\<lparr>done_closed := True\<rparr>"
    by (auto simp: waiter_step_def split: if_splits)
  from st have nd: "\<not> done_closed s" by (auto simp: waiter_step_def split: if_splits)
  from q have sh: "shape p s" and tr: "transit_ok p s" and ord: "order_ok s" and ct: "control_ok s"
    by (simp_all add: quiet_def)
  have "shape p s'" using sh by (simp add: e shape_def)
  moreover have "transit_ok p s'" using tr by (simp add: e transit_ok_def)
  moreover have "order_ok s'" using ord order_ok_cong[of s' s] by (simp add: e)
  moreover have "control_ok s'" using ct ar nd
    by (simp add: e control_ok_def all_returned_def)
  ultimately show ?thesis by (simp add: quiet_def)
qed

lemma quiet_Execute_step:
  assumes st: "Execute_step p choice s = Some s'" and q: "quiet p s" and fl: "flush_ok p"
  shows "quiet p s'"
proof -
  from q have sh: "shape p s" and tr: "transit_ok p s" and ord: "order_ok s" and ct: "control_ok s"
    by (simp_all add: quiet_def)
  from ct have nc: "\<not> ctx_done s" "errorChan s = []" by (simp_all add: control_ok_def)
  from ct st have ms: "exec_pc s = MSelect"
    by (auto simp: control_ok_def Execute_step_def)
  from st ms nc fl have dc: "done_closed s"
    and e: "s' = Execute_return None (s\<lparr>flushes := flushes s + 1\<rparr>)"
    by (auto simp: Execute_step_def split: exec_choice.splits if_splits)
  have "shape p s'" using sh by (simp add: e shape_def Execute_return_def)
  moreover have "transit_ok p s'" using tr by (simp add: e transit_ok_def Execute_return_def)
  moreover have "order_ok s'" using ord order_ok_cong[of s' s]
    by (simp add: e Execute_return_def)
  moreover have "control_ok s'" using ct ms dc
    by (simp add: e control_ok_def all_returned_def Execute_return_def)
  ultimately show ?thesis by (simp add: quiet_def)
qed

lemma quiet_step:
  assumes "step p s a = Some s'" and "a \<noteq> CancelCtx" and "quiet p s" and "flush_ok p"
  shows "quiet p s'"
  using assms
  by (cases a)
     (simp_all add: quiet_input_step quiet_proc_step quiet_output_step quiet_waiter_step
        quiet_Execute_step)

lemma quiet_run:
  assumes "run p s as = Some s'" and "CancelCtx \<notin> set as" and "quiet p s" and "flush_ok p"
  shows "quiet p s'"
  using assms
proof (induction as arbitrary: s)
  case Nil
  then show ?case by simp
next
  case (Cons a as)
  from Cons.prems(1) obtain s1 where s1: "step p s a = Some s1" and r: "run p s1 as = Some s'"
    by (auto split: option.splits)
  from Cons.prems(2) have "a \<noteq> CancelCtx" "CancelCtx \<notin> set as" by auto
  from quiet_step[OF s1 this(1) Cons.prems(3,4)] Cons.IH[OF r this(2) _ Cons.prems(4)]
  show ?case by blast
qed

lemma input_loop_enabled:
  assumes "in_pc s = Loop"
  shows "runInputReader_step p False s \<noteq> None"
  using assms
  by (simp add: runInputReader_step_def split: list.splits read_result.splits)

lemma input_send_enabled:
  assumes "in_pc s = Sending b" and "can_send p s 0"
  shows "runInputReader_step p False s \<noteq> None"
  using assms by (simp add: runInputReader_step_def select2_def)

lemma proc_loop_enabled:
  assumes "shape p s" and "i < length (proc_pc s)" and "proc_pc s ! i = Loop"
    and "chans s ! i \<noteq> [] \<or> chan_closed s i"
  shows "runProcessor_step p i False s \<noteq> None"
proof -
  from assms(1,2) have "\<not> (i \<ge> length (proc_pc s) \<or> i \<ge> length (procs p) \<or> i + 1 \<ge> length (chans s))"
    by (simp add: shape_def)
  with assms(3,4) show ?thesis
    by (simp add: runProcessor_step_def select2_def split: list.splits)
qed

lemma proc_send_enabled:
  assumes "shape p s" and "i < length (proc_pc s)" and "proc_pc s ! i = Sending b"
    and "can_send p s (i + 1)"
  shows "runProcessor_step p i False s \<noteq> None"
proof -
  from assms(1,2) have "\<not> (i \<ge> length (proc_pc s) \<or> i \<ge> length (procs p) \<or> i + 1 \<ge> length (chans s))"
    by (simp add: shape_def)
  with assms(3,4) show ?thesis
    by (simp add: runProcessor_step_def select2_def Let_def)
qed

lemma output_loop_enabled:
  assumes "shape p s" and "out_pc s = Loop"
    and "chans s ! length (proc_pc s) \<noteq> [] \<or> chan_closed s (length (proc_pc s))"
  shows "runOutputWriter_step p False s \<noteq> None"
proof -
  from assms(1) have "chans s \<noteq> []" "length (chans s) - 1 = length (proc_pc s)"
    by (auto simp: shape_def)
  with assms(2,3) show ?thesis
    by (simp add: runOutputWriter_step_def select2_def Let_def split: list.splits)
qed

lemma quiet_last_chan_empty:
  assumes q: "quiet p s"
  shows "chans s ! length (proc_pc s) = []"
proof -
  from q have sh: "shape p s" and tr: "transit_ok p s" by (simp_all add: quiet_def)
  define n where "n = length (proc_pc s)"
  from sh have n: "n < length (chans s)" "drop n (procs p) = []"
    by (auto simp: shape_def n_def)
  from tr n(1) have "\<forall>b \<in> set (chans s ! n). filtered_out (drop n (procs p)) b"
    by (simp add: transit_ok_def)
  then have "\<And>b. b \<in> set (chans s ! n) \<Longrightarrow> False"
    unfolding n(2) by simp
  then show ?thesis
    unfolding n_def[symmetric] by (cases "chans s ! n") force+
qed

text \<open>
  A batch waiting in a channel, or in the hands of a stage that wants to send it, can move
  on, or something downstream of it can.
\<close>

lemma sender_enabled:
  assumes sh: "shape p s" and j: "j \<le> length (proc_pc s)"
    and sp: "sender_pc s j = Sending b" and cs: "can_send p s j"
  shows "\<exists>a. a \<noteq> CancelCtx \<and> step p s a \<noteq> None"
proof (cases j)
  case 0
  with sp cs input_send_enabled[of s b p] have "step p s (InputStep False) \<noteq> None"
    by (simp add: sender_pc_def)
  then show ?thesis by (intro exI[where x = "InputStep False"]) simp
next
  case (Suc i)
  with j sp cs proc_send_enabled[OF sh, of i b] have "step p s (ProcStep i False) \<noteq> None"
    by (simp add: sender_pc_def)
  then show ?thesis by (intro exI[where x = "ProcStep i False"]) simp
qed

lemma chan_cap_nonneg:
  assumes "chans_made p" and "shape p s" and "j \<le> length (proc_pc s)"
  shows "0 \<le> chan_cap p j"
  using assms by (cases j) (auto simp: chans_made_def chan_cap_def shape_def)

lemma waiting_batch_moves:
  assumes q: "quiet p s" and cm: "chans_made p"
    and j: "j \<le> length (proc_pc s)"
    and w: "chans s ! j \<noteq> [] \<or> (\<exists>b. sender_pc s j = Sending b)"
  shows "\<exists>a. a \<noteq> CancelCtx \<and> step p s a \<noteq> None"
  using j w
proof (induction "length (proc_pc s) - j" arbitrary: j)
  case 0
  then have jn: "j = length (proc_pc s)" by simp
  from q have sh: "shape p s" and tr: "transit_ok p s" by (simp_all add: quiet_def)
  from sh jn have dr: "drop j (procs p) = []" by (simp add: shape_def)
  from 0(3) quiet_last_chan_empty[OF q] jn obtain b where b: "sender_pc s j = Sending b" by auto
  have "filtered_out (drop j (procs p)) b"
  proof (cases j)
    case 0
    with b tr show ?thesis by (simp add: sender_pc_def transit_ok_def)
  next
    case (Suc i)
    with jn have "i < length (proc_pc s)" by simp
    with tr have "pc_quiet (drop (Suc i) (procs p)) (proc_pc s ! i)" by (simp add: transit_ok_def)
    with b Suc show ?thesis by (simp add: sender_pc_def)
  qed
  with dr show ?case by simp
next
  case (Suc k)
  then have i: "j < length (proc_pc s)" by simp
  from q have sh: "shape p s" and tr: "transit_ok p s" and ord: "order_ok s"
    by (simp_all add: quiet_def)
  from tr i have pq: "pc_quiet (drop (Suc j) (procs p)) (proc_pc s ! j)"
    by (simp add: transit_ok_def)
  have nr: "proc_pc s ! j \<noteq> Returned"
  proof
    assume "proc_pc s ! j = Returned"
    with ord i have "chan_closed s j" "chans s ! j = []" by (auto simp: order_ok_def)
    with Suc.prems(2) show False by (auto simp: chan_closed_def sender_pc_def split: if_splits)
  qed
  show ?case
  proof (cases "proc_pc s ! j")
    case Loop
    show ?thesis
    proof (cases "chans s ! j = []")
      case False
      with proc_loop_enabled[OF sh i Loop] have "step p s (ProcStep j False) \<noteq> None" by simp
      then show ?thesis by (intro exI[where x = "ProcStep j False"]) simp
    next
      case True
      with Suc.prems(2) obtain b where b: "sender_pc s j = Sending b" by auto
      from chan_cap_nonneg[OF cm sh Suc.prems(1)] True Loop i have "can_send p s j"
        by (simp add: can_send_def receiver_ready_def)
      from sender_enabled[OF sh Suc.prems(1) b this] show ?thesis .
    qed
  next
    case (Sending b)
    then have "sender_pc s (j + 1) = Sending b" by (simp add: sender_pc_def)
    moreover from Suc(2) have "k = length (proc_pc s) - (j + 1)" by simp
    moreover from i have "j + 1 \<le> length (proc_pc s)" by simp
    ultimately show ?thesis using Suc(1)[of "j + 1"] by blast
  next
    case (Failing e)
    with pq show ?thesis by simp
  next
    case Returned
    with nr show ?thesis by simp
  qed
qed

text \<open>Until \<open>Execute\<close> has returned, some goroutine can move.\<close>

lemma quiet_progress:
  assumes q: "quiet p s" and cm: "chans_made p" and nr: "exec_pc s = MSelect"
  shows "\<exists>a. a \<noteq> CancelCtx \<and> step p s a \<noteq> None"
proof -
  from q have sh: "shape p s" and tr: "transit_ok p s" and ord: "order_ok s" and ct: "control_ok s"
    by (simp_all add: quiet_def)
  note moves = waiting_batch_moves[OF q cm]
  have ar: "all_returned s \<longleftrightarrow> in_pc s = Returned
      \<and> (\<forall>i < length (proc_pc s). proc_pc s ! i = Returned) \<and> out_pc s = Returned"
    by (simp add: all_returned_def all_set_conv_all_nth)
  consider (closed) "done_closed s"
    | (waiter) "\<not> done_closed s" "all_returned s"
    | (reader) "in_pc s \<noteq> Returned"
    | (proc) "in_pc s = Returned" "\<exists>i < length (proc_pc s). proc_pc s ! i \<noteq> Returned"
    | (writer) "in_pc s = Returned" "\<forall>i < length (proc_pc s). proc_pc s ! i = Returned"
        "out_pc s \<noteq> Returned"
    using ar by blast
  then show ?thesis
  proof cases
    case closed
    with nr have "step p s (ExecStep CaseDone) \<noteq> None" by (simp add: Execute_step_def)
    then show ?thesis by (intro exI[where x = "ExecStep CaseDone"]) simp
  next
    case waiter
    then have "step p s WaiterStep \<noteq> None" by (simp add: waiter_step_def)
    then show ?thesis by (intro exI[where x = WaiterStep]) simp
  next
    case reader
    from tr have pq: "pc_quiet (procs p) (in_pc s)" by (simp add: transit_ok_def)
    show ?thesis
    proof (cases "in_pc s")
      case Loop
      from input_loop_enabled[OF Loop] have "step p s (InputStep False) \<noteq> None" by simp
      then show ?thesis by (intro exI[where x = "InputStep False"]) simp
    next
      case (Sending b)
      then have "sender_pc s 0 = Sending b" by (simp add: sender_pc_def)
      with moves[of 0] show ?thesis by blast
    next
      case (Failing e)
      with pq show ?thesis by simp
    next
      case Returned
      with reader show ?thesis by simp
    qed
  next
    case proc
    define i where "i = (LEAST i. i < length (proc_pc s) \<and> proc_pc s ! i \<noteq> Returned)"
    from proc(2) have i: "i < length (proc_pc s)" "proc_pc s ! i \<noteq> Returned"
      unfolding i_def by (metis (mono_tags, lifting) LeastI_ex)+
    have least: "\<And>k. k < i \<Longrightarrow> proc_pc s ! k = Returned"
    proof -
      fix k assume k: "k < i"
      with i(1) have "k < length (proc_pc s)" by simp
      with not_less_Least[of k "\<lambda>i. i < length (proc_pc s) \<and> proc_pc s ! i \<noteq> Returned"] k
      show "proc_pc s ! k = Returned" by (simp add: i_def)
    qed
    have cl: "chan_closed s i"
    proof (cases i)
      case 0
      with proc(1) show ?thesis by (simp add: chan_closed_def)
    next
      case (Suc k)
      with least[of k] show ?thesis by (simp add: chan_closed_def)
    qed
    from tr i(1) have pq: "pc_quiet (drop (Suc i) (procs p)) (proc_pc s ! i)"
      by (simp add: transit_ok_def)
    show ?thesis
    proof (cases "proc_pc s ! i")
      case Loop
      from proc_loop_enabled[OF sh i(1) Loop] cl
      have "step p s (ProcStep i False) \<noteq> None" by simp
      then show ?thesis by (intro exI[where x = "ProcStep i False"]) simp
    next
      case (Sending b)
      then have "sender_pc s (i + 1) = Sending b" by (simp add: sender_pc_def)
      moreover from i(1) have "i + 1 \<le> length (proc_pc s)" by simp
      ultimately show ?thesis using moves[of "i + 1"] by blast
    next
      case (Failing e)
      with pq show ?thesis by simp
    next
      case Returned
      with i(2) show ?thesis by simp
    qed
  next
    case writer
    from tr writer(3) have lp: "out_pc s = Loop" by (simp add: transit_ok_def)
    have cl: "chan_closed s (length (proc_pc s))"
    proof (cases "length (proc_pc s)")
      case 0
      with writer(1) show ?thesis by (simp add: chan_closed_def)
    next
      case (Suc k)
      with writer(2)[rule_format, of k] show ?thesis by (simp add: chan_closed_def)
    qed
    from output_loop_enabled[OF sh lp] cl
    have "step p s (OutputStep False) \<noteq> None" by simp
    then show ?thesis by (intro exI[where x = "OutputStep False"]) simp
  qed
qed

lemma quiet_exec_pc:
  assumes "quiet p s"
  shows "exec_pc s = MSelect \<or> exec_pc s = MReturned None"
  using assms by (auto simp: quiet_def control_ok_def)

lemma quiet_completes:
  assumes q: "quiet p s" and fl: "flush_ok p" and cm: "chans_made p"
  shows "\<exists>as s'. CancelCtx \<notin> set as \<and> run p s as = Some s' \<and> exec_pc s' = MReturned None"
  using q
proof (induction "steps_left s" arbitrary: s rule: less_induct)
  case less
  from quiet_exec_pc[OF less.prems] show ?case
  proof
    assume "exec_pc s = MReturned None"
    then have "CancelCtx \<notin> set [] \<and> run p s [] = Some s \<and> exec_pc s = MReturned None" by simp
    then show ?thesis by blast
  next
    assume "exec_pc s = MSelect"
    from quiet_progress[OF less.prems cm this]
    obtain a s1 where a: "a \<noteq> CancelCtx" "step p s a = Some s1" by auto
    from less.prems have sh: "shape p s" by (simp add: quiet_def)
    from step_decreases[OF a(2) sh] have d: "steps_left s1 < steps_left s" by simp
    from quiet_step[OF a(2) a(1) less.prems fl] have q1: "quiet p s1" .
    from less.hyps[OF d q1] obtain as s' where
      r: "CancelCtx \<notin> set as" "run p s1 as = Some s'" "exec_pc s' = MReturned None" by blast
    with a have "CancelCtx \<notin> set (a # as) \<and> run p s (a # as) = Some s' \<and> exec_pc s' = MReturned None"
      by simp
    then show ?thesis by blast
  qed
qed

text \<open>
  C5. Take an execution in which both connects, the making of the channels and the flush
  succeed, no read fails and every batch read is either empty or filtered to empty by some
  processor (none before it failing), and in which nobody cancels; the channels are buffered
  or unbuffered, of any sizes that \<open>make\<close> accepts. Then at
  every moment of it no batch has been written to the output or waits in the output channel
  and the records-written counter is zero; it is never longer than \<open>steps_left\<close> of its
  start; as long as \<open>Execute\<close> has not returned, Flush has not been called and some
  goroutine can move; once it has returned, it has returned nil after exactly one Flush and
  one Close of each end; and it can always be continued to that return.
\<close>

theorem all_filtered_execution:
  assumes clean: "clean_run p reads"
    and exec: "run p (Execute_start p reads False) sched = Some s"
    and no_cancel: "CancelCtx \<notin> set sched"
  shows "delivered s = [] \<and> totalRecords s = 0 \<and> chans s ! length (procs p) = []
    \<and> length sched \<le> steps_left (Execute_start p reads False)
    \<and> (exec_pc s = MSelect \<and> flushes s = 0 \<and> (\<exists>a. a \<noteq> CancelCtx \<and> step p s a \<noteq> None)
        \<or> exec_pc s = MReturned None \<and> flushes s = 1
            \<and> input_closes s = 1 \<and> output_closes s = 1)
    \<and> (\<exists>more s'. CancelCtx \<notin> set more \<and> run p s more = Some s'
          \<and> exec_pc s' = MReturned None \<and> flushes s' = 1
          \<and> delivered s' = [] \<and> totalRecords s' = 0)"
proof -
  from clean have fl: "flush_ok p" and cm: "chans_made p" by (simp_all add: clean_run_def)
  from quiet_run[OF exec no_cancel quiet_start[OF clean] fl] have q: "quiet p s" .
  then have sh: "shape p s" and ct: "control_ok s" by (simp_all add: quiet_def)
  from ct have 1: "delivered s = [] \<and> totalRecords s = 0" by (simp add: control_ok_def)
  from quiet_last_chan_empty[OF q] sh have 2: "chans s ! length (procs p) = []"
    by (simp add: shape_def)
  from run_bounded[OF exec shape_start]
  have 3: "length sched \<le> steps_left (Execute_start p reads False)" by simp
  have 4: "exec_pc s = MSelect \<and> flushes s = 0 \<and> (\<exists>a. a \<noteq> CancelCtx \<and> step p s a \<noteq> None)
        \<or> exec_pc s = MReturned None \<and> flushes s = 1
            \<and> input_closes s = 1 \<and> output_closes s = 1"
  proof (cases "exec_pc s = MSelect")
    case True
    from quiet_progress[OF q cm True] True ct show ?thesis by (simp add: control_ok_def)
  next
    case False
    with ct show ?thesis by (simp add: control_ok_def)
  qed
  from quiet_completes[OF q fl cm] obtain more s' where
    m: "CancelCtx \<notin> set more" "run p s more = Some s'" "exec_pc s' = MReturned None" by blast
  from quiet_run[OF m(2) m(1) q fl] have "control_ok s'" by (simp add: quiet_def)
  with m(3) have "flushes s' = 1 \<and> delivered s' = [] \<and> totalRecords s' = 0"
    by (simp add: control_ok_def)
  with m have 5: "\<exists>more s'. CancelCtx \<notin> set more \<and> run p s more = Some s'
          \<and> exec_pc s' = MReturned None \<and> flushes s' = 1
          \<and> delivered s' = [] \<and> totalRecords s' = 0" by blast
  from 1 2 3 4 5 show ?thesis by simp
qed

theorem all_filtered_execution_witness:
  "clean_run (demo_pipeline [filter_all]\<lparr>inputBufferSize := 0\<rparr>)
     [RBatch (demo_batch 3), RBatch (demo_batch 2), REOF]
   \<and> (\<exists>s. run (demo_pipeline [filter_all]\<lparr>inputBufferSize := 0\<rparr>)
            (Execute_start (demo_pipeline [filter_all]\<lparr>inputBufferSize := 0\<rparr>)
               [RBatch (demo_batch 3), RBatch (demo_batch 2), REOF] False)
            [InputStep False, InputStep False, InputStep False, InputStep False,
             InputStep False, ProcStep 0 False, OutputStep False, WaiterStep,
             ExecStep CaseDone] = Some s
        \<and> exec_pc s = MReturned None \<and> flushes s = 1 \<and> delivered s = []
        \<and> totalRecords s = 0 \<and> totalBatches s = 2 \<and> script s = [])"
proof -
  let ?p = "demo_pipeline [filter_all]\<lparr>inputBufferSize := 0\<rparr>"
  let ?reads = "[RBatch (demo_batch 3), RBatch (demo_batch 2), REOF]"
  let ?sched = "[InputStep False, InputStep False, InputStep False, InputStep False,
             InputStep False, ProcStep 0 False, OutputStep False, WaiterStep,
             ExecStep CaseDone]"
  have c: "clean_run ?p ?reads"
    by (simp add: clean_run_def chans_made_def demo_pipeline_def demo_batch_def filter_all_def IsEmpty_def)
  have "\<exists>s. run ?p (Execute_start ?p ?reads False) ?sched = Some s
      \<and> exec_pc s = MReturned None \<and> totalBatches s = 2 \<and> script s = []"
    by (simp add: Execute_start_def chans_made_def demo_pipeline_def demo_batch_def filter_all_def IsEmpty_def
        runInputReader_step_def runProcessor_step_def runOutputWriter_step_def waiter_step_def
        Execute_step_def Execute_return_def select2_def pipelineCtx_done_def chan_closed_def
        chan_cap_def all_returned_def can_send_def send_def hand_over_def receiver_ready_def
        processBatch_def Let_def)
  then obtain s where r: "run ?p (Execute_start ?p ?reads False) ?sched = Some s"
    and e: "exec_pc s = MReturned None" "totalBatches s = 2" "script s = []" by blast
  have n: "CancelCtx \<notin> set ?sched" by simp
  from all_filtered_execution[OF c r n] e
  have "exec_pc s = MReturned None \<and> flushes s = 1 \<and> delivered s = []
        \<and> totalRecords s = 0 \<and> totalBatches s = 2 \<and> script s = []" by simp
  with c r show ?thesis by blast
qed

text \<open>
  C6. An execution that is cancelled and yet returns nil after a Flush: the caller cancels the
  context while the input reader is in its loop; the reader and the writer see it and return;
  the wait group goroutine closes \<open>done\<close>; \<open>Execute\<close> comes to its \<open>select\<close> with \<open>done\<close> closed
  and the context cancelled, both cases ready, and the runtime picks \<open>done\<close>. The batch was
  never read. In the second execution a read fails, the caller cancels, and the \<open>select\<close>, with
  the error and the cancellation both ready, picks the error: the cancelled execution returns
  the stage's failure.
\<close>

theorem cancelled_execution_returns_nil:
  "map_option (\<lambda>s. (ctx_done s, exec_pc s, flushes s, input_closes s, output_closes s, script s))
     (run (demo_pipeline []) (Execute_start (demo_pipeline []) [RBatch (demo_batch 10)] False)
        [CancelCtx, InputStep False, OutputStep True, WaiterStep, ExecStep CaseDone])
     = Some (True, MReturned None, 1, 1, 1, [RBatch (demo_batch 10)])
   \<and> map_option (\<lambda>s. (ctx_done s, exec_pc s, flushes s))
     (run (demo_pipeline []) (Execute_start (demo_pipeline []) [RErr] False)
        [InputStep False, InputStep False, CancelCtx, ExecStep CaseError, OutputStep True,
         ExecStep JoinStages])
     = Some (True, MReturned (Some (PipelineError ReadFailed)), 0)"
  by (simp add: Execute_start_def chans_made_def demo_pipeline_def demo_batch_def IsEmpty_def
        runInputReader_step_def runOutputWriter_step_def waiter_step_def send_error_def
        Execute_step_def Execute_return_def select2_def pipelineCtx_done_def chan_closed_def
        chan_cap_def all_returned_def can_send_def send_def Let_def)

end
